theory Spec2Isabelle
  imports Main "HOL-Library.Word" "HOL-Library.Multiset"
begin

section \<open>Data model of \<open>orderbook_v0.2.cpp\<close>\<close>

text \<open>
  \<open>Price\<close> is \<open>int32_t\<close>; the program only compares and copies prices, it never
  computes with them, so they are modelled as integers. \<open>Quantity\<close> is \<open>uint32_t\<close> and
  \<open>OrderId\<close> is \<open>uint64_t\<close>; the level aggregate counts in \<open>uint32_t\<close> and sums in
  \<open>uint64_t\<close>, and these wrap around as the machine types do.
  An \<open>OrderPtr\<close> (\<open>std::shared_ptr<Order>\<close>) is an address into the memory \<open>mem\<close> of
  Order objects: the price queues and the id-lookup hold the same pointers, and a fill
  through one is seen through the other.
\<close>

type_synonym Price = int
type_synonym Quantity = "32 word"
type_synonym OrderId = "64 word"
type_synonym addr = nat

datatype Side = Buy | Sell

datatype OrderType = GoodTillCancel | FillAndKill | FillOrKill | GoodForDay | Market

text \<open>\<open>std::logic_error\<close> thrown by \<open>Order::Fill\<close>, \<open>std::out_of_range\<close> thrown by
  \<open>std::map::at\<close>, \<open>std::length_error\<close> and \<open>std::bad_alloc\<close> thrown by
  \<open>std::vector::reserve\<close>.\<close>

datatype error = LogicError | OutOfRange | LengthError | BadAlloc

text \<open>The fields \<open>type\<close>, \<open>id\<close>, \<open>side\<close>, \<open>price\<close>, \<open>initialQuantity\<close>,
  \<open>remainingQuantity\<close> of \<open>struct Order\<close>. The \<open>timestamp\<close> field is written by the
  constructor and never read.\<close>

record Order =
  otype :: OrderType
  oid :: OrderId
  oside :: Side
  oprice :: Price
  initialQuantity :: Quantity
  remainingQuantity :: Quantity

definition Order_new :: "OrderType \<Rightarrow> OrderId \<Rightarrow> Side \<Rightarrow> Price \<Rightarrow> Quantity \<Rightarrow> Order" where
  "Order_new t i s p q =
     \<lparr>otype = t, oid = i, oside = s, oprice = p, initialQuantity = q, remainingQuantity = q\<rparr>"

definition IsFilled :: "Order \<Rightarrow> bool" where
  "IsFilled ord = (remainingQuantity ord = 0)"

definition Order_Fill :: "Quantity \<Rightarrow> Order \<Rightarrow> error + Order" where
  "Order_Fill q ord =
     (if q > remainingQuantity ord then Inl LogicError
      else Inr (ord\<lparr>remainingQuantity := remainingQuantity ord - q\<rparr>))"

definition ToGoodTillCancel :: "Price \<Rightarrow> Order \<Rightarrow> Order" where
  "ToGoodTillCancel worstPrice ord =
     (if otype ord = Market then ord\<lparr>otype := GoodTillCancel, oprice := worstPrice\<rparr> else ord)"

record OrderModify =
  m_orderId :: OrderId
  m_side :: Side
  m_price :: Price
  m_quantity :: Quantity

definition ToOrderPointer :: "OrderModify \<Rightarrow> OrderType \<Rightarrow> Order" where
  "ToOrderPointer md t = Order_new t (m_orderId md) (m_side md) (m_price md) (m_quantity md)"

record TradeInfo =
  orderId :: OrderId
  price :: Price
  quantity :: Quantity

record Trade =
  bid :: TradeInfo
  ask :: TradeInfo

record LevelData =
  ld_count :: "32 word"
  ld_quantity :: "64 word"

text \<open>
  A \<open>std::map<Price, OrderPointers, Compare>\<close> is the list of its entries in iteration
  order: \<open>begin()\<close> is the head, \<open>rbegin()\<close> the last entry. \<open>bids_\<close> is ordered by
  \<open>std::greater\<close>, \<open>asks_\<close> by \<open>std::less\<close>. The aggregate map \<open>data_\<close> is only
  searched by key, never iterated. \<open>orders_\<close> is the list of the entries of the
  \<open>unordered_map\<close>; an \<open>OrderEntry\<close> is the order pointer, and its iterator \<open>it\<close> is
  the node of the price queue that holds this pointer. The members \<open>bids_\<close>,
  \<open>asks_\<close>, \<open>orders_\<close> and \<open>data_\<close> are the fields \<open>bids\<close>, \<open>asks\<close>, \<open>orders\<close>
  and \<open>ldata\<close>.
\<close>

type_synonym levels = "(Price \<times> addr list) list"

record OrderBook =
  mem :: "addr \<Rightarrow> Order"
  bids :: levels
  asks :: levels
  orders :: "(OrderId \<times> addr) list"
  ldata :: "Price \<Rightarrow> LevelData option"

definition empty_order :: Order where
  "empty_order = Order_new GoodTillCancel 0 Buy 0 0"

definition OrderBook_new :: OrderBook where
  "OrderBook_new = \<lparr>mem = (\<lambda>a. empty_order), bids = [], asks = [], orders = [],
     ldata = (\<lambda>p. None)\<rparr>"

text \<open>\<open>std::make_shared<Order>(...)\<close> returning the pointer \<open>a\<close>.\<close>

definition make_shared :: "addr \<Rightarrow> Order \<Rightarrow> OrderBook \<Rightarrow> OrderBook" where
  "make_shared a ord s = s\<lparr>mem := (mem s)(a := ord)\<rparr>"

subsection \<open>Container operations\<close>

text \<open>\<open>m[p].push_back(a)\<close> on a map ordered by \<open>cmp\<close>: \<open>operator[]\<close> creates the
  empty queue at its place in the order when the key is absent.\<close>

fun map_push_back :: "(Price \<Rightarrow> Price \<Rightarrow> bool) \<Rightarrow> Price \<Rightarrow> addr \<Rightarrow> levels \<Rightarrow> levels" where
  "map_push_back cmp p a [] = [(p, [a])]"
| "map_push_back cmp p a ((k, q) # m) =
     (if k = p then (k, q @ [a]) # m
      else if cmp p k then (p, [a]) # (k, q) # m
      else (k, q) # map_push_back cmp p a m)"

definition map_erase :: "Price \<Rightarrow> levels \<Rightarrow> levels" where
  "map_erase p m = filter (\<lambda>kv. fst kv \<noteq> p) m"

definition map_assign :: "Price \<Rightarrow> addr list \<Rightarrow> levels \<Rightarrow> levels" where
  "map_assign p c m = map (\<lambda>kv. if fst kv = p then (p, c) else kv) m"

text \<open>\<open>auto &c = m.at(p); c.erase(it); if (c.empty()) m.erase(p);\<close> where \<open>it\<close> is the
  node holding the pointer \<open>a\<close>.\<close>

definition level_erase :: "Price \<Rightarrow> addr \<Rightarrow> levels \<Rightarrow> error + levels" where
  "level_erase p a m =
     (case map_of m p of
        None \<Rightarrow> Inl OutOfRange
      | Some c \<Rightarrow> (let c' = remove1 a c in
                   Inr (if c' = [] then map_erase p m else map_assign p c' m)))"

definition orders_contains :: "(OrderId \<times> addr) list \<Rightarrow> OrderId \<Rightarrow> bool" where
  "orders_contains os i = (map_of os i \<noteq> None)"

definition orders_insert :: "OrderId \<Rightarrow> addr \<Rightarrow> (OrderId \<times> addr) list \<Rightarrow> (OrderId \<times> addr) list" where
  "orders_insert i a os = (if orders_contains os i then os else os @ [(i, a)])"

definition orders_erase :: "OrderId \<Rightarrow> (OrderId \<times> addr) list \<Rightarrow> (OrderId \<times> addr) list" where
  "orders_erase i os = filter (\<lambda>kv. fst kv \<noteq> i) os"

subsection \<open>Bookkeeping hooks\<close>

definition OnOrderAdded :: "Order \<Rightarrow> (Price \<Rightarrow> LevelData option) \<Rightarrow> (Price \<Rightarrow> LevelData option)" where
  "OnOrderAdded ord d =
     (let ld = (case d (oprice ord) of None \<Rightarrow> \<lparr>ld_count = 0, ld_quantity = 0\<rparr> | Some l \<Rightarrow> l)
      in d(oprice ord \<mapsto> \<lparr>ld_count = ld_count ld + 1,
                           ld_quantity = ld_quantity ld + ucast (initialQuantity ord)\<rparr>))"

definition OnOrderCancelled :: "Order \<Rightarrow> (Price \<Rightarrow> LevelData option) \<Rightarrow> (Price \<Rightarrow> LevelData option)" where
  "OnOrderCancelled ord d =
     (case d (oprice ord) of
        None \<Rightarrow> d
      | Some ld \<Rightarrow>
          (let ld' = \<lparr>ld_count = ld_count ld - 1,
                      ld_quantity = ld_quantity ld - ucast (remainingQuantity ord)\<rparr>
           in if ld_count ld' = 0 then d(oprice ord := None) else d(oprice ord \<mapsto> ld')))"

definition OnOrderMatched :: "Price \<Rightarrow> Quantity \<Rightarrow> bool \<Rightarrow> (Price \<Rightarrow> LevelData option) \<Rightarrow> (Price \<Rightarrow> LevelData option)" where
  "OnOrderMatched p qty full d =
     (case d p of
        None \<Rightarrow> d
      | Some ld \<Rightarrow>
          (let ld' = \<lparr>ld_count = (if full then ld_count ld - 1 else ld_count ld),
                      ld_quantity = ld_quantity ld - ucast qty\<rparr>
           in if ld_count ld' = 0 then d(p := None) else d(p \<mapsto> ld')))"

subsection \<open>Matching helpers\<close>

definition CanMatch :: "OrderBook \<Rightarrow> Side \<Rightarrow> Price \<Rightarrow> bool" where
  "CanMatch s sd p =
     (if sd = Buy then (if asks s = [] then False else p \<ge> fst (hd (asks s)))
      else (if bids s = [] then False else p \<le> fst (hd (bids s))))"

text \<open>The loop of \<open>CanFullyFill\<close> over one side's levels; \<open>beyond p\<close> is the test that
  breaks out of it (\<open>p > price\<close> on the asks, \<open>p < price\<close> on the bids).\<close>

fun fill_walk :: "(Price \<Rightarrow> bool) \<Rightarrow> (Price \<Rightarrow> LevelData option) \<Rightarrow> 64 word \<Rightarrow> levels \<Rightarrow> bool" where
  "fill_walk beyond d remaining [] = False"
| "fill_walk beyond d remaining ((p, lvl) # rest) =
     (if beyond p then False
      else (let avail = (case d p of None \<Rightarrow> 0 | Some ld \<Rightarrow> ld_quantity ld) in
            if avail \<ge> remaining then True
            else (let remaining' = (if avail > 0 then remaining - min avail remaining
                                    else remaining)
                  in if remaining' = 0 then True
                     else fill_walk beyond d remaining' rest)))"

definition CanFullyFill :: "OrderBook \<Rightarrow> Side \<Rightarrow> Price \<Rightarrow> Quantity \<Rightarrow> bool" where
  "CanFullyFill s sd p qty =
     (if \<not> CanMatch s sd p then False
      else if sd = Buy then fill_walk (\<lambda>k. k > p) (ldata s) (ucast qty) (asks s)
      else fill_walk (\<lambda>k. k < p) (ldata s) (ucast qty) (bids s))"

subsection \<open>Cancel\<close>

definition CancelOrderInternal :: "OrderId \<Rightarrow> OrderBook \<Rightarrow> error + OrderBook" where
  "CancelOrderInternal i s =
     (case map_of (orders s) i of
        None \<Rightarrow> Inr s
      | Some a \<Rightarrow>
          (let ord = mem s a;
               s1 = s\<lparr>orders := orders_erase i (orders s)\<rparr>
           in if oside ord = Sell
              then (case level_erase (oprice ord) a (asks s1) of
                      Inl e \<Rightarrow> Inl e
                    | Inr m \<Rightarrow> Inr (s1\<lparr>asks := m, ldata := OnOrderCancelled ord (ldata s1)\<rparr>))
              else (case level_erase (oprice ord) a (bids s1) of
                      Inl e \<Rightarrow> Inl e
                    | Inr m \<Rightarrow> Inr (s1\<lparr>bids := m, ldata := OnOrderCancelled ord (ldata s1)\<rparr>))))"

definition CancelOrder :: "OrderId \<Rightarrow> OrderBook \<Rightarrow> error + OrderBook" where
  "CancelOrder i s = CancelOrderInternal i s"

subsection \<open>The matching loop\<close>

text \<open>\<open>bids.pop_front()\<close> where \<open>bids\<close> is the queue of the first entry of the map.\<close>

definition pop_front_head :: "levels \<Rightarrow> levels" where
  "pop_front_head m = (fst (hd m), tl (snd (hd m))) # tl m"

text \<open>One pass through the body of the inner \<open>while\<close> of \<open>MatchOrders\<close>: the heads of the
  two best queues trade.\<close>

definition fill_pair :: "(addr \<Rightarrow> Order) \<Rightarrow> addr \<Rightarrow> addr \<Rightarrow> Quantity \<Rightarrow> error + (addr \<Rightarrow> Order)" where
  "fill_pair m b a qty =
     (case Order_Fill qty (m b) of
        Inl e \<Rightarrow> Inl e
      | Inr ob \<Rightarrow>
          (case Order_Fill qty ((m(b := ob)) a) of
             Inl e \<Rightarrow> Inl e
           | Inr oa \<Rightarrow> Inr (m(b := ob, a := oa))))"

definition match_one :: "OrderBook \<Rightarrow> error + (OrderBook \<times> Trade)" where
  "match_one s =
     (let bidPrice = fst (hd (bids s)); askPrice = fst (hd (asks s));
          b = hd (snd (hd (bids s))); a = hd (snd (hd (asks s)));
          qty = min (remainingQuantity (mem s b)) (remainingQuantity (mem s a))
      in case fill_pair (mem s) b a qty of
           Inl e \<Rightarrow> Inl e
         | Inr m2 \<Rightarrow>
            (let t = \<lparr>bid = \<lparr>orderId = oid (m2 b), price = askPrice, quantity = qty\<rparr>,
                      ask = \<lparr>orderId = oid (m2 a), price = askPrice, quantity = qty\<rparr>\<rparr>;
                 d1 = OnOrderMatched bidPrice qty (IsFilled (m2 b)) (ldata s);
                 d2 = OnOrderMatched askPrice qty (IsFilled (m2 a)) d1;
                 s1 = s\<lparr>mem := m2, ldata := d2\<rparr>;
                 s2 = (if IsFilled (m2 b)
                       then s1\<lparr>orders := orders_erase (oid (m2 b)) (orders s1),
                               bids := pop_front_head (bids s1)\<rparr>
                       else s1);
                 s3 = (if IsFilled (m2 a)
                       then s2\<lparr>orders := orders_erase (oid (m2 a)) (orders s2),
                               asks := pop_front_head (asks s2)\<rparr>
                       else s2)
             in Inr (s3, t)))"

definition heads_nonempty :: "OrderBook \<Rightarrow> bool" where
  "heads_nonempty s =
     (bids s \<noteq> [] \<and> asks s \<noteq> [] \<and> snd (hd (bids s)) \<noteq> [] \<and> snd (hd (asks s)) \<noteq> [])"

definition head_size :: "OrderBook \<Rightarrow> nat" where
  "head_size s = length (snd (hd (bids s))) + length (snd (hd (asks s)))"

lemma fill_pair_filled:
  assumes "fill_pair m b a (min (remainingQuantity (m b)) (remainingQuantity (m a))) = Inr m2"
  shows "IsFilled (m2 b) \<or> IsFilled (m2 a)"
proof (cases "a = b")
  case True
  with assms show ?thesis
    by (auto simp: fill_pair_def Order_Fill_def IsFilled_def word_gt_0 split: if_splits)
next
  case False
  with assms show ?thesis
    by (auto simp: fill_pair_def Order_Fill_def IsFilled_def min_def split: if_splits)
qed

lemma match_one_Inr:
  assumes "match_one s = Inr (s', t)"
  obtains m2 where
    "fill_pair (mem s) (hd (snd (hd (bids s)))) (hd (snd (hd (asks s))))
       (min (remainingQuantity (mem s (hd (snd (hd (bids s))))))
            (remainingQuantity (mem s (hd (snd (hd (asks s))))))) = Inr m2"
    "mem s' = m2"
    "bids s' = (if IsFilled (m2 (hd (snd (hd (bids s))))) then pop_front_head (bids s) else bids s)"
    "asks s' = (if IsFilled (m2 (hd (snd (hd (asks s))))) then pop_front_head (asks s) else asks s)"
    "orders s' =
       (if IsFilled (m2 (hd (snd (hd (asks s)))))
        then orders_erase (oid (m2 (hd (snd (hd (asks s))))))
        else (\<lambda>x. x))
       ((if IsFilled (m2 (hd (snd (hd (bids s)))))
         then orders_erase (oid (m2 (hd (snd (hd (bids s))))))
         else (\<lambda>x. x)) (orders s))"
  using assms by (auto simp: match_one_def Let_def split: sum.splits if_splits)

lemma match_one_head_size:
  assumes "heads_nonempty s" and "match_one s = Inr (s', t)"
  shows "head_size s' < head_size s"
proof -
  from assms(2) obtain m2 where
    fp: "fill_pair (mem s) (hd (snd (hd (bids s)))) (hd (snd (hd (asks s))))
       (min (remainingQuantity (mem s (hd (snd (hd (bids s))))))
            (remainingQuantity (mem s (hd (snd (hd (asks s))))))) = Inr m2" and
    b: "bids s' = (if IsFilled (m2 (hd (snd (hd (bids s))))) then pop_front_head (bids s) else bids s)" and
    a: "asks s' = (if IsFilled (m2 (hd (snd (hd (asks s))))) then pop_front_head (asks s) else asks s)"
    by (rule match_one_Inr)
  from assms(1) obtain x xs y ys where
    "snd (hd (bids s)) = x # xs" "snd (hd (asks s)) = y # ys"
    by (auto simp: heads_nonempty_def neq_Nil_conv)
  then show ?thesis
    using fill_pair_filled [OF fp] b a
    by (auto simp: head_size_def pop_front_head_def)
qed

text \<open>The inner \<open>while (!bids.empty() && !asks.empty())\<close> of \<open>MatchOrders\<close>.\<close>

function match_level :: "OrderBook \<Rightarrow> Trade list \<Rightarrow> error + (OrderBook \<times> Trade list)" where
  "match_level s trades =
     (if heads_nonempty s
      then (case match_one s of
              Inl e \<Rightarrow> Inl e
            | Inr (s', t) \<Rightarrow> match_level s' (trades @ [t]))
      else Inr (s, trades))"
  by pat_completeness auto
termination
  by (relation "measure (\<lambda>(s, trades). head_size s)") (auto dest: match_one_head_size)

declare match_level.simps [simp del]

text \<open>An invariant of the loop body holds when the inner loop returns, and the loop
  returns only when one of the two best queues is empty.\<close>

lemma match_level_invariant:
  assumes "match_level s trades = Inr (s', trades')"
    and "I s trades"
    and "\<And>s trades s1 t. I s trades \<Longrightarrow> heads_nonempty s \<Longrightarrow> match_one s = Inr (s1, t)
           \<Longrightarrow> I s1 (trades @ [t])"
  shows "I s' trades' \<and> \<not> heads_nonempty s'"
  using assms(1,2)
proof (induction s trades rule: match_level.induct)
  case (1 s trades)
  show ?case
  proof (cases "heads_nonempty s")
    case False
    with "1.prems" show ?thesis by (simp add: match_level.simps [of s])
  next
    case True
    with "1.prems"(1) obtain s1 t where
      m1: "match_one s = Inr (s1, t)" and
      rec: "match_level s1 (trades @ [t]) = Inr (s', trades')"
      by (auto simp: match_level.simps [of s] split: sum.splits)
    from assms(3) [OF "1.prems"(2) True m1] have "I s1 (trades @ [t])" .
    with "1.IH" [OF True m1 refl rec] show ?thesis by simp
  qed
qed

lemma match_one_shape:
  assumes "match_one s = Inr (s1, t)" and "bids s \<noteq> []" and "asks s \<noteq> []"
  shows "bids s1 \<noteq> [] \<and> asks s1 \<noteq> [] \<and>
         fst (hd (bids s1)) = fst (hd (bids s)) \<and> tl (bids s1) = tl (bids s) \<and>
         fst (hd (asks s1)) = fst (hd (asks s)) \<and> tl (asks s1) = tl (asks s)"
  using assms by (elim match_one_Inr) (simp add: pop_front_head_def)

lemma match_level_shape:
  assumes "match_level s trades = Inr (s', trades')" and "bids s \<noteq> []" and "asks s \<noteq> []"
  shows "bids s' \<noteq> [] \<and> asks s' \<noteq> [] \<and> \<not> heads_nonempty s' \<and>
         fst (hd (bids s')) = fst (hd (bids s)) \<and> tl (bids s') = tl (bids s) \<and>
         fst (hd (asks s')) = fst (hd (asks s)) \<and> tl (asks s') = tl (asks s)"
proof -
  let ?I = "\<lambda>x (ts :: Trade list). bids x \<noteq> [] \<and> asks x \<noteq> [] \<and>
         fst (hd (bids x)) = fst (hd (bids s)) \<and> tl (bids x) = tl (bids s) \<and>
         fst (hd (asks x)) = fst (hd (asks s)) \<and> tl (asks x) = tl (asks s)"
  have "?I s' trades' \<and> \<not> heads_nonempty s'"
  proof (rule match_level_invariant [OF assms(1), where I = ?I])
    show "?I s trades" using assms(2,3) by simp
  next
    fix x ts x1 t
    assume "?I x ts" and "heads_nonempty x" and "match_one x = Inr (x1, t)"
    then show "?I x1 (ts @ [t])"
      using match_one_shape [of x x1 t] by simp
  qed
  then show ?thesis by simp
qed

text \<open>After the inner loop: \<open>if (bids.empty()) { bids_.erase(bidPrice);
  data_.erase(bidPrice); }\<close> and the same for the asks.\<close>

definition erase_empty :: "Price \<Rightarrow> Price \<Rightarrow> OrderBook \<Rightarrow> OrderBook" where
  "erase_empty bidPrice askPrice s1 =
     (let s2 = (if snd (hd (bids s1)) = []
                then s1\<lparr>bids := map_erase bidPrice (bids s1),
                        ldata := (ldata s1)(bidPrice := None)\<rparr>
                else s1);
          s3 = (if snd (hd (asks s2)) = []
                then s2\<lparr>asks := map_erase askPrice (asks s2),
                        ldata := (ldata s2)(askPrice := None)\<rparr>
                else s2)
      in s3)"

definition book_size :: "OrderBook \<Rightarrow> nat" where
  "book_size s = length (bids s) + length (asks s)"

lemma map_erase_hd_less:
  "m \<noteq> [] \<Longrightarrow> length (map_erase (fst (hd m)) m) < length m"
  by (cases m) (simp_all add: map_erase_def le_imp_less_Suc)

lemma erase_empty_book_size:
  assumes "match_level s trades = Inr (s1, trades1)" and "bids s \<noteq> []" and "asks s \<noteq> []"
  shows "book_size (erase_empty (fst (hd (bids s))) (fst (hd (asks s))) s1) < book_size s"
proof -
  from match_level_shape [OF assms] have
    ne: "bids s1 \<noteq> []" "asks s1 \<noteq> []" and
    nh: "\<not> heads_nonempty s1" and
    kb: "fst (hd (bids s1)) = fst (hd (bids s))" and tb: "tl (bids s1) = tl (bids s)" and
    ka: "fst (hd (asks s1)) = fst (hd (asks s))" and ta: "tl (asks s1) = tl (asks s)"
    by simp_all
  have lb: "length (bids s1) = length (bids s)"
    using ne(1) assms(2) tb by (cases "bids s1"; cases "bids s") simp_all
  have la: "length (asks s1) = length (asks s)"
    using ne(2) assms(3) ta by (cases "asks s1"; cases "asks s") simp_all
  have eb: "length (map_erase (fst (hd (bids s))) (bids s1)) < length (bids s)"
    using map_erase_hd_less [OF ne(1)] kb lb by simp
  have ea: "length (map_erase (fst (hd (asks s))) (asks s1)) < length (asks s)"
    using map_erase_hd_less [OF ne(2)] ka la by simp
  from nh ne have "snd (hd (bids s1)) = [] \<or> snd (hd (asks s1)) = []"
    by (simp add: heads_nonempty_def)
  then show ?thesis
    using eb ea lb la by (auto simp: erase_empty_def book_size_def Let_def)
qed

text \<open>The outer \<open>while (!bids_.empty() && !asks_.empty())\<close> of \<open>MatchOrders\<close>.\<close>

function MatchOrders_loop :: "OrderBook \<Rightarrow> Trade list \<Rightarrow> error + (OrderBook \<times> Trade list)" where
  "MatchOrders_loop s trades =
     (if bids s \<noteq> [] \<and> asks s \<noteq> []
      then (if fst (hd (bids s)) < fst (hd (asks s)) then Inr (s, trades)
            else (case match_level s trades of
                    Inl e \<Rightarrow> Inl e
                  | Inr (s1, trades1) \<Rightarrow>
                      MatchOrders_loop
                        (erase_empty (fst (hd (bids s))) (fst (hd (asks s))) s1) trades1))
      else Inr (s, trades))"
  by pat_completeness auto
termination
  by (relation "measure (\<lambda>(s, trades). book_size s)") (auto dest: erase_empty_book_size)

declare MatchOrders_loop.simps [simp del]

text \<open>The two statements after the loops: a \<open>FillAndKill\<close> order at the front of the best
  bid queue, then one at the front of the best ask queue, is cancelled.\<close>

definition cancel_front_FillAndKill :: "levels \<Rightarrow> OrderBook \<Rightarrow> error + OrderBook" where
  "cancel_front_FillAndKill m s =
     (if m \<noteq> [] \<and> snd (hd m) \<noteq> [] \<and> otype (mem s (hd (snd (hd m)))) = FillAndKill
      then CancelOrderInternal (oid (mem s (hd (snd (hd m))))) s
      else Inr s)"

definition MatchOrders :: "OrderBook \<Rightarrow> error + (Trade list \<times> OrderBook)" where
  "MatchOrders s =
     (case MatchOrders_loop s [] of
        Inl e \<Rightarrow> Inl e
      | Inr (s1, trades) \<Rightarrow>
          (case cancel_front_FillAndKill (bids s1) s1 of
             Inl e \<Rightarrow> Inl e
           | Inr s2 \<Rightarrow>
               (case cancel_front_FillAndKill (asks s2) s2 of
                  Inl e \<Rightarrow> Inl e
                | Inr s3 \<Rightarrow> Inr (trades, s3))))"

subsection \<open>AddOrder, ModifyOrder and the queries\<close>

text \<open>The market order conversion at the top of \<open>AddOrder\<close>; \<open>None\<close> is the
  \<open>return {}\<close> for no liquidity.\<close>

definition convert_market :: "addr \<Rightarrow> OrderBook \<Rightarrow> OrderBook option" where
  "convert_market a s =
     (if otype (mem s a) = Market
      then (if oside (mem s a) = Buy \<and> asks s \<noteq> []
            then Some (s\<lparr>mem := (mem s)(a := ToGoodTillCancel (fst (last (asks s))) (mem s a))\<rparr>)
            else if oside (mem s a) = Sell \<and> bids s \<noteq> []
            then Some (s\<lparr>mem := (mem s)(a := ToGoodTillCancel (fst (last (bids s))) (mem s a))\<rparr>)
            else None)
      else Some s)"

text \<open>The insertion of \<open>AddOrder\<close>: the push to the price queue, the entry in the
  id-lookup, and \<open>OnOrderAdded\<close>.\<close>

definition insert_order :: "addr \<Rightarrow> OrderBook \<Rightarrow> OrderBook" where
  "insert_order a s =
     (let ord = mem s a;
          s1 = (if oside ord = Buy
                then s\<lparr>bids := map_push_back (\<lambda>x y. x > y) (oprice ord) a (bids s)\<rparr>
                else s\<lparr>asks := map_push_back (\<lambda>x y. x < y) (oprice ord) a (asks s)\<rparr>)
      in s1\<lparr>orders := orders_insert (oid ord) a (orders s1),
            ldata := OnOrderAdded ord (ldata s1)\<rparr>)"

text \<open>\<open>AddOrder(order)\<close> where \<open>order\<close> is the pointer \<open>a\<close>. The result is the trade
  list and the state after the call.\<close>

definition AddOrder :: "addr \<Rightarrow> OrderBook \<Rightarrow> error + (Trade list \<times> OrderBook)" where
  "AddOrder a s =
     (if orders_contains (orders s) (oid (mem s a)) then Inr ([], s)
      else (case convert_market a s of
              None \<Rightarrow> Inr ([], s)
            | Some s1 \<Rightarrow>
                (let ord = mem s1 a in
                 if otype ord = FillAndKill \<and> \<not> CanMatch s1 (oside ord) (oprice ord)
                 then Inr ([], s1)
                 else if otype ord = FillOrKill \<and>
                         \<not> CanFullyFill s1 (oside ord) (oprice ord) (initialQuantity ord)
                 then Inr ([], s1)
                 else MatchOrders (insert_order a s1))))"

text \<open>\<open>ModifyOrder(mod)\<close>; \<open>a\<close> is the pointer that \<open>mod.ToOrderPointer\<close> returns from
  \<open>std::make_shared\<close>.\<close>

definition ModifyOrder :: "OrderModify \<Rightarrow> addr \<Rightarrow> OrderBook \<Rightarrow> error + (Trade list \<times> OrderBook)" where
  "ModifyOrder md a s =
     (case map_of (orders s) (m_orderId md) of
        None \<Rightarrow> Inr ([], s)
      | Some e \<Rightarrow>
          (let typeToKeep = otype (mem s e) in
           case CancelOrder (m_orderId md) s of
             Inl er \<Rightarrow> Inl er
           | Inr s1 \<Rightarrow> AddOrder a (make_shared a (ToOrderPointer md typeToKeep) s1)))"

text \<open>\<open>max_size()\<close> of \<open>std::vector<std::pair<Price,uint64_t>>\<close> as libstdc++ computes
  it: \<open>PTRDIFF_MAX\<close> divided by the size of an element, which is 16 bytes, on a 64-bit
  target.\<close>

definition vector_max_size :: nat where
  "vector_max_size = (2 ^ 63 - 1) div 16"

text \<open>\<open>out.reserve(depth)\<close> on the empty vector \<open>out\<close>, where \<open>depth\<close> is a \<open>size_t\<close>. It
  throws \<open>std::length_error\<close> when \<open>depth\<close> exceeds \<open>max_size()\<close>; otherwise it asks
  the allocator for storage for \<open>depth\<close> elements, when \<open>depth\<close> is not 0, and
  \<open>std::bad_alloc\<close> comes out when the allocator cannot provide it. What the allocator
  can provide depends on the machine at the moment of the call: \<open>avail\<close> is the largest
  number of elements for which the request succeeds. This is the one allocation whose
  size the caller chooses; the others of the program are of a few fixed bytes and are
  taken to succeed.\<close>

definition vector_reserve :: "nat \<Rightarrow> 64 word \<Rightarrow> error + unit" where
  "vector_reserve avail depth =
     (if unat depth > vector_max_size then Inl LengthError
      else if unat depth > avail then Inl BadAlloc
      else Inr ())"

text \<open>The loop of \<open>GetBidLevels\<close> and \<open>GetAskLevels\<close> over one side's levels; \<open>out\<close> never
  grows beyond \<open>depth\<close> elements, so it does not allocate again.\<close>

fun level_snapshot :: "64 word \<Rightarrow> (addr \<Rightarrow> Order) \<Rightarrow> levels \<Rightarrow> (Price \<times> 64 word) list \<Rightarrow> (Price \<times> 64 word) list" where
  "level_snapshot depth m [] out = out"
| "level_snapshot depth m ((p, lvl) # rest) out =
     (if length out \<ge> unat depth then out
      else level_snapshot depth m rest
             (out @ [(p, foldl (\<lambda>qty x. qty + ucast (remainingQuantity (m x))) 0 lvl)]))"

definition GetBidLevels :: "nat \<Rightarrow> 64 word \<Rightarrow> OrderBook \<Rightarrow> error + (Price \<times> 64 word) list" where
  "GetBidLevels avail depth s =
     (case vector_reserve avail depth of
        Inl e \<Rightarrow> Inl e
      | Inr u \<Rightarrow> Inr (level_snapshot depth (mem s) (bids s) []))"

definition GetAskLevels :: "nat \<Rightarrow> 64 word \<Rightarrow> OrderBook \<Rightarrow> error + (Price \<times> 64 word) list" where
  "GetAskLevels avail depth s =
     (case vector_reserve avail depth of
        Inl e \<Rightarrow> Inl e
      | Inr u \<Rightarrow> Inr (level_snapshot depth (mem s) (asks s) []))"

definition Size :: "OrderBook \<Rightarrow> nat" where
  "Size s = length (orders s)"

text \<open>What \<open>PruneGoodForDayOrders\<close> does to the book when it wakes at the cutoff.\<close>

fun cancel_all :: "OrderId list \<Rightarrow> OrderBook \<Rightarrow> error + OrderBook" where
  "cancel_all [] s = Inr s"
| "cancel_all (i # ids) s =
     (case CancelOrderInternal i s of Inl e \<Rightarrow> Inl e | Inr s' \<Rightarrow> cancel_all ids s')"

definition PruneGoodForDayOrders :: "OrderBook \<Rightarrow> error + OrderBook" where
  "PruneGoodForDayOrders s =
     cancel_all (map fst (filter (\<lambda>kv. otype (mem s (snd kv)) = GoodForDay) (orders s))) s"


definition queue_addrs :: "levels \<Rightarrow> addr list" where
  "queue_addrs m = concat (map snd m)"

definition book_addrs :: "OrderBook \<Rightarrow> addr list" where
  "book_addrs s = queue_addrs (bids s) @ queue_addrs (asks s)"

definition level_all :: "(Price \<Rightarrow> addr \<Rightarrow> bool) \<Rightarrow> levels \<Rightarrow> bool" where
  "level_all P m = (\<forall>kv \<in> set m. \<forall>a \<in> set (snd kv). P (fst kv) a)"

lemma queue_addrs_simps [simp]:
  "queue_addrs [] = []"
  "queue_addrs ((p, q) # m) = q @ queue_addrs m"
  by (simp_all add: queue_addrs_def)

lemma level_all_simps [simp]:
  "level_all P [] = True"
  "level_all P ((p, q) # m) = ((\<forall>a \<in> set q. P p a) \<and> level_all P m)"
  by (simp_all add: level_all_def)

lemma level_all_iff: "level_all P m = (\<forall>kv \<in> set m. \<forall>a \<in> set (snd kv). P (fst kv) a)"
  by (simp add: level_all_def)

lemma level_all_mono:
  "level_all P m \<Longrightarrow> (\<And>p a. a \<in> set (queue_addrs m) \<Longrightarrow> P p a \<Longrightarrow> Q p a) \<Longrightarrow> level_all Q m"
  by (induction m) auto

subsection \<open>push\<close>

lemma map_push_back_keys:
  "fst ` set (map_push_back cmp p a m) = insert p (fst ` set m)"
  by (induction cmp p a m rule: map_push_back.induct) auto

lemma map_push_back_mset:
  "mset (queue_addrs (map_push_back cmp p a m)) = add_mset a (mset (queue_addrs m))"
  by (induction cmp p a m rule: map_push_back.induct) auto

lemma map_push_back_set:
  "set (queue_addrs (map_push_back cmp p a m)) = insert a (set (queue_addrs m))"
  by (induction cmp p a m rule: map_push_back.induct) auto

lemma map_push_back_level_all:
  "level_all P (map_push_back cmp p a m) = (P p a \<and> level_all P m)"
  by (induction cmp p a m rule: map_push_back.induct) auto

lemma map_push_back_sorted_gt:
  "sorted_wrt (>) (map fst m) \<Longrightarrow> sorted_wrt (>) (map fst (map_push_back (\<lambda>x y. x > y) p a m))"
proof (induction "\<lambda>x y :: Price. x > y" p a m rule: map_push_back.induct)
  case (1 p a)
  then show ?case by simp
next
  case (2 p a k q m)
  have "\<forall>x \<in> fst ` set (map_push_back (\<lambda>x y. x > y) p a m). x = p \<or> x \<in> fst ` set m"
    by (simp add: map_push_back_keys)
  with 2 show ?case by (fastforce simp: image_iff)
qed

lemma map_push_back_sorted_lt:
  "sorted_wrt (<) (map fst m) \<Longrightarrow> sorted_wrt (<) (map fst (map_push_back (\<lambda>x y. x < y) p a m))"
proof (induction "\<lambda>x y :: Price. x < y" p a m rule: map_push_back.induct)
  case (1 p a)
  then show ?case by simp
next
  case (2 p a k q m)
  have "\<forall>x \<in> fst ` set (map_push_back (\<lambda>x y. x < y) p a m). x = p \<or> x \<in> fst ` set m"
    by (simp add: map_push_back_keys)
  with 2 show ?case by (fastforce simp: image_iff)
qed

lemma map_push_back_nonempty:
  "\<forall>kv \<in> set m. snd kv \<noteq> [] \<Longrightarrow> \<forall>kv \<in> set (map_push_back cmp p a m). snd kv \<noteq> []"
  by (induction cmp p a m rule: map_push_back.induct) auto

lemma map_push_back_not_Nil [simp]: "map_push_back cmp p a m \<noteq> []"
  by (induction cmp p a m rule: map_push_back.induct) auto

subsection \<open>pop\<close>

lemma pop_front_head_eq:
  "m = (p, x # q) # rest \<Longrightarrow> pop_front_head m = (p, q) # rest"
  by (simp add: pop_front_head_def)

subsection \<open>erase\<close>

lemma map_erase_absent: "p \<notin> fst ` set m \<Longrightarrow> map_erase p m = m"
  by (induction m) (auto simp: map_erase_def)

lemma map_assign_absent: "p \<notin> fst ` set m \<Longrightarrow> map_assign p c m = m"
  by (induction m) (auto simp: map_assign_def)

lemma map_erase_Cons:
  "map_erase p ((k, q) # m) = (if k = p then map_erase p m else (k, q) # map_erase p m)"
  by (simp add: map_erase_def)

lemma map_erase_Nil [simp]: "map_erase p [] = []"
  by (simp add: map_erase_def)

lemma map_assign_Nil [simp]: "map_assign p c [] = []"
  by (simp add: map_assign_def)

lemma map_assign_Cons:
  "map_assign p c ((k, q) # m) = (if k = p then (p, c) else (k, q)) # map_assign p c m"
  by (simp add: map_assign_def)

lemma map_erase_keys: "map fst (map_erase p m) = filter (\<lambda>k. k \<noteq> p) (map fst m)"
  by (induction m) (auto simp: map_erase_def)

lemma map_erase_level_all: "level_all P m \<Longrightarrow> level_all P (map_erase p m)"
  by (auto simp: level_all_def map_erase_def)

lemma map_erase_head:
  "distinct (map fst ((p, q) # rest)) \<Longrightarrow> map_erase p ((p, q) # rest) = rest"
  by (simp add: map_erase_Cons map_erase_absent)

lemma map_of_level_mset:
  "distinct (map fst m) \<Longrightarrow> map_of m p = Some c \<Longrightarrow>
     mset (queue_addrs (map_erase p m)) + mset c = mset (queue_addrs m)"
  by (induction m) (auto simp: map_erase_Cons map_erase_absent)

lemma map_assign_keys [simp]: "map fst (map_assign p c m) = map fst m"
  by (induction m) (auto simp: map_assign_def)

lemma map_assign_mset:
  "distinct (map fst m) \<Longrightarrow> map_of m p = Some c \<Longrightarrow>
     mset (queue_addrs (map_assign p c' m)) = mset (queue_addrs (map_erase p m)) + mset c'"
  by (induction m) (auto simp: map_erase_Cons map_assign_Cons map_erase_absent map_assign_absent)

lemma map_assign_level_all_gen:
  "level_all P m \<Longrightarrow> \<forall>a \<in> set c'. P p a \<Longrightarrow> level_all P (map_assign p c' m)"
  by (induction m) (auto simp: map_assign_Cons)

lemma map_of_level_all:
  "level_all P m \<Longrightarrow> map_of m p = Some c \<Longrightarrow> a \<in> set c \<Longrightarrow> P p a"
  by (induction m) (auto split: if_splits)

lemma map_assign_level_all:
  "level_all P m \<Longrightarrow> map_of m p = Some c \<Longrightarrow> set c' \<subseteq> set c \<Longrightarrow> level_all P (map_assign p c' m)"
  by (rule map_assign_level_all_gen) (auto dest: map_of_level_all)


subsection \<open>Index consistency\<close>

definition entries :: "levels \<Rightarrow> (Price \<times> addr) set" where
  "entries m = {(p, a). \<exists>q. (p, q) \<in> set m \<and> a \<in> set q}"

lemma level_all_entries: "level_all P m = (\<forall>(p, a) \<in> entries m. P p a)"
  by (fastforce simp: level_all_def entries_def)

lemma entries_addrs: "snd ` entries m = set (queue_addrs m)"
  by (force simp: entries_def queue_addrs_def)

lemma entries_Cons: "entries ((p, q) # m) = (\<lambda>a. (p, a)) ` set q \<union> entries m"
  by (auto simp: entries_def)

lemma entries_Nil [simp]: "entries [] = {}"
  by (simp add: entries_def)

lemma entries_map_erase: "entries (map_erase p m) \<subseteq> entries m"
  by (auto simp: entries_def map_erase_def)

lemma entries_map_assign:
  "map_of m p = Some c \<Longrightarrow> set c' \<subseteq> set c \<Longrightarrow> entries (map_assign p c' m) \<subseteq> entries m"
  by (auto simp: entries_def map_assign_def dest!: map_of_SomeD split: if_splits)

lemma entries_map_push_back:
  "entries (map_push_back cmp p a m) = insert (p, a) (entries m)"
  by (induction cmp p a m rule: map_push_back.induct) (auto simp: entries_Cons)

definition same_static :: "(addr \<Rightarrow> Order) \<Rightarrow> (addr \<Rightarrow> Order) \<Rightarrow> bool" where
  "same_static m m' = (\<forall>x. otype (m' x) = otype (m x) \<and> oid (m' x) = oid (m x) \<and>
      oside (m' x) = oside (m x) \<and> oprice (m' x) = oprice (m x) \<and>
      initialQuantity (m' x) = initialQuantity (m x))"

lemma same_static_refl [simp]: "same_static m m"
  by (simp add: same_static_def)

lemma same_static_trans: "same_static m m1 \<Longrightarrow> same_static m1 m2 \<Longrightarrow> same_static m m2"
  by (simp add: same_static_def)

definition index_ok_on ::
  "(addr \<Rightarrow> Order) \<Rightarrow> levels \<Rightarrow> levels \<Rightarrow> (OrderId \<times> addr) list \<Rightarrow> bool" where
  "index_ok_on m bs as os =
     (sorted_wrt (>) (map fst bs) \<and> sorted_wrt (<) (map fst as) \<and>
      distinct (queue_addrs bs @ queue_addrs as) \<and> distinct (map fst os) \<and>
      level_all (\<lambda>p a. oside (m a) = Buy \<and> oprice (m a) = p) bs \<and>
      level_all (\<lambda>p a. oside (m a) = Sell \<and> oprice (m a) = p) as \<and>
      set os = (\<lambda>a. (oid (m a), a)) ` set (queue_addrs bs @ queue_addrs as))"

definition index_ok :: "OrderBook \<Rightarrow> bool" where
  "index_ok s = index_ok_on (mem s) (bids s) (asks s) (orders s)"


lemma orders_erase_graph:
  assumes "distinct (map fst os)" and "set os = (\<lambda>a. (f a, a)) ` A" and "x \<in> A"
  shows "set (orders_erase (f x) os) = (\<lambda>a. (f a, a)) ` (A - {x})"
    and "distinct (map fst (orders_erase (f x) os))"
proof -
  have inj: "a = x" if "a \<in> A" "f a = f x" for a
  proof -
    have "(f a, a) \<in> (\<lambda>a. (f a, a)) ` A" using that(1) by (rule imageI)
    then have 1: "(f x, a) \<in> set os" unfolding that(2) assms(2) .
    have "(f x, x) \<in> (\<lambda>a. (f a, a)) ` A" using assms(3) by (rule imageI)
    then have 2: "(f x, x) \<in> set os" unfolding assms(2) .
    from assms(1) 1 2 show ?thesis by (rule eq_key_imp_eq_value)
  qed
  show "set (orders_erase (f x) os) = (\<lambda>a. (f a, a)) ` (A - {x})"
  proof (intro set_eqI iffI)
    fix kv assume "kv \<in> set (orders_erase (f x) os)"
    then have "kv \<in> set os" "fst kv \<noteq> f x" by (simp_all add: orders_erase_def)
    with assms(2) obtain a where "a \<in> A" "kv = (f a, a)" by blast
    with \<open>fst kv \<noteq> f x\<close> show "kv \<in> (\<lambda>a. (f a, a)) ` (A - {x})" by auto
  next
    fix kv assume "kv \<in> (\<lambda>a. (f a, a)) ` (A - {x})"
    then obtain a where a: "a \<in> A" "a \<noteq> x" "kv = (f a, a)" by blast
    with inj have "f a \<noteq> f x" by blast
    moreover from a assms(2) have "kv \<in> set os" by blast
    ultimately show "kv \<in> set (orders_erase (f x) os)" using a by (simp add: orders_erase_def)
  qed
  show "distinct (map fst (orders_erase (f x) os))"
    using assms(1) by (simp add: orders_erase_def distinct_map_filter)
qed

lemma index_ok_on_intro:
  assumes "sorted_wrt (>) (map fst bs)" "sorted_wrt (<) (map fst as)"
    and "distinct (queue_addrs bs @ queue_addrs as)" "distinct (map fst os)"
    and "level_all (\<lambda>p a. oside (m a) = Buy \<and> oprice (m a) = p) bs"
    and "level_all (\<lambda>p a. oside (m a) = Sell \<and> oprice (m a) = p) as"
    and "set os = (\<lambda>a. (oid (m a), a)) ` set (queue_addrs bs @ queue_addrs as)"
  shows "index_ok_on m bs as os"
  unfolding index_ok_on_def using assms by (intro conjI)

lemma index_ok_on_sides:
  assumes ok: "index_ok_on m bs as os" and st: "same_static m m'"
    and eb: "entries bs' \<subseteq> entries bs" and ea: "entries as' \<subseteq> entries as"
  shows "level_all (\<lambda>p a. oside (m' a) = Buy \<and> oprice (m' a) = p) bs'"
    and "level_all (\<lambda>p a. oside (m' a) = Sell \<and> oprice (m' a) = p) as'"
proof -
  from ok have b: "\<forall>(p, a) \<in> entries bs. oside (m a) = Buy \<and> oprice (m a) = p"
    and a: "\<forall>(p, a) \<in> entries as. oside (m a) = Sell \<and> oprice (m a) = p"
    by (simp_all add: index_ok_on_def level_all_entries)
  have eq: "oside (m' x) = oside (m x)" "oprice (m' x) = oprice (m x)" for x
    using st by (simp_all add: same_static_def)
  show "level_all (\<lambda>p a. oside (m' a) = Buy \<and> oprice (m' a) = p) bs'"
    unfolding level_all_entries eq using b eb by blast
  show "level_all (\<lambda>p a. oside (m' a) = Sell \<and> oprice (m' a) = p) as'"
    unfolding level_all_entries eq using a ea by blast
qed

lemma index_ok_on_remove:
  assumes ok: "index_ok_on m bs as os"
    and st: "same_static m m'"
    and sb: "sorted_wrt (>) (map fst bs')" and sa: "sorted_wrt (<) (map fst as')"
    and eb: "entries bs' \<subseteq> entries bs" and ea: "entries as' \<subseteq> entries as"
    and ms: "mset (x # queue_addrs bs' @ queue_addrs as') = mset (queue_addrs bs @ queue_addrs as)"
  shows "index_ok_on m' bs' as' (orders_erase (oid (m' x)) os)"
proof -
  define L where "L = queue_addrs bs @ queue_addrs as"
  define L' where "L' = queue_addrs bs' @ queue_addrs as'"
  have ms': "mset (x # L') = mset L" using ms by (simp add: L_def L'_def)
  from ok have d: "distinct L" by (simp add: index_ok_on_def L_def)
  from mset_eq_imp_distinct_iff [OF ms'] d have "distinct (x # L')" by simp
  then have d': "distinct L'" and xn: "x \<notin> set L'" by simp_all
  have A: "set L = insert x (set L')" using mset_eq_setD [OF ms'] by simp
  then have A': "set L - {x} = set L'" using xn by blast
  have xA: "x \<in> set L" using A by blast
  have idm: "oid (m' a) = oid (m a)" for a using st by (simp add: same_static_def)
  from ok have os: "distinct (map fst os)" "set os = (\<lambda>a. (oid (m a), a)) ` set L"
    by (simp_all add: index_ok_on_def L_def)
  from orders_erase_graph [OF os xA]
  have "set (orders_erase (oid (m x)) os) = (\<lambda>a. (oid (m a), a)) ` (set L - {x})"
    and "distinct (map fst (orders_erase (oid (m x)) os))" .
  then have o1: "set (orders_erase (oid (m' x)) os) = (\<lambda>a. (oid (m' a), a)) ` set L'"
    and o2: "distinct (map fst (orders_erase (oid (m' x)) os))"
    unfolding idm A' .
  show ?thesis
    by (rule index_ok_on_intro [OF sb sa d' [unfolded L'_def] o2
          index_ok_on_sides [OF ok st eb ea] o1 [unfolded L'_def]])
qed

lemma index_ok_on_same:
  assumes ok: "index_ok_on m bs as os"
    and st: "same_static m m'"
    and sb: "sorted_wrt (>) (map fst bs')" and sa: "sorted_wrt (<) (map fst as')"
    and eb: "entries bs' \<subseteq> entries bs" and ea: "entries as' \<subseteq> entries as"
    and ms: "queue_addrs bs' @ queue_addrs as' = queue_addrs bs @ queue_addrs as"
  shows "index_ok_on m' bs' as' os"
proof -
  have idm: "oid (m' a) = oid (m a)" for a using st by (simp add: same_static_def)
  from ok have d: "distinct (queue_addrs bs' @ queue_addrs as')" and o: "distinct (map fst os)"
    and g: "set os = (\<lambda>a. (oid (m' a), a)) ` set (queue_addrs bs' @ queue_addrs as')"
    unfolding ms idm by (simp_all add: index_ok_on_def)
  show ?thesis
    by (rule index_ok_on_intro [OF sb sa d o index_ok_on_sides [OF ok st eb ea] g])
qed


lemma sorted_wrt_irrefl_distinct':
  "sorted_wrt R xs \<Longrightarrow> (\<And>x. \<not> R x x) \<Longrightarrow> distinct xs"
  by (induction xs) auto

lemma sorted_gt_distinct: "sorted_wrt (>) (xs :: Price list) \<Longrightarrow> distinct xs"
  by (induction xs) auto

lemma sorted_lt_distinct: "sorted_wrt (<) (xs :: Price list) \<Longrightarrow> distinct xs"
  by (induction xs) auto

subsection \<open>Filling the two heads\<close>

lemma fill_pair_min:
  assumes "a \<noteq> b"
  shows "fill_pair m b a (min (remainingQuantity (m b)) (remainingQuantity (m a))) =
         Inr (m(b := (m b)\<lparr>remainingQuantity := remainingQuantity (m b) -
                  min (remainingQuantity (m b)) (remainingQuantity (m a))\<rparr>,
                a := (m a)\<lparr>remainingQuantity := remainingQuantity (m a) -
                  min (remainingQuantity (m b)) (remainingQuantity (m a))\<rparr>))"
  using assms by (simp add: fill_pair_def Order_Fill_def not_less)

lemma fill_pair_static:
  assumes "fill_pair m b a q = Inr m2"
  shows "same_static m m2"
  using assms
  by (auto simp: fill_pair_def Order_Fill_def same_static_def split: if_splits)

lemma fill_pair_other:
  assumes "fill_pair m b a q = Inr m2" and "x \<noteq> a" and "x \<noteq> b"
  shows "m2 x = m x"
  using assms by (auto simp: fill_pair_def Order_Fill_def split: if_splits)

lemma fill_pair_remaining_le:
  assumes "fill_pair m b a q = Inr m2" and "a \<noteq> b"
  shows "remainingQuantity (m2 x) \<le> remainingQuantity (m x)"
proof -
  have sub: "r - q \<le> r" if "q \<le> r" for r :: Quantity
    using that by (simp add: word_sub_le)
  from assms show ?thesis
    by (auto simp: fill_pair_def Order_Fill_def not_less sub split: if_splits)
qed


lemma heads_shape:
  assumes "heads_nonempty s"
  obtains bp b bq brest ap a aq arest where
    "bids s = (bp, b # bq) # brest" and "asks s = (ap, a # aq) # arest"
proof -
  from assms obtain l1 r1 l2 r2 where 1: "bids s = l1 # r1" "asks s = l2 # r2"
    by (auto simp: heads_nonempty_def neq_Nil_conv)
  with assms obtain b bq a aq where 2: "snd l1 = b # bq" "snd l2 = a # aq"
    by (auto simp: heads_nonempty_def neq_Nil_conv)
  have "bids s = (fst l1, b # bq) # r1" "asks s = (fst l2, a # aq) # r2"
    using 1 2 by (simp_all add: prod_eq_iff)
  then show ?thesis by (rule that)
qed

lemma index_ok_on_heads_distinct:
  assumes "index_ok_on m ((bp, b # bq) # brest) ((ap, a # aq) # arest) os"
  shows "b \<noteq> a"
  using assms by (auto simp: index_ok_on_def)

lemma index_ok_on_pop_bid:
  assumes ok: "index_ok_on m ((bp, b # bq) # brest) as os" and st: "same_static m m'"
  shows "index_ok_on m' ((bp, bq) # brest) as (orders_erase (oid (m' b)) os)"
proof (rule index_ok_on_remove [OF ok st])
  show "sorted_wrt (>) (map fst ((bp, bq) # brest))"
    using ok by (simp add: index_ok_on_def)
  show "sorted_wrt (<) (map fst as)"
    using ok by (simp add: index_ok_on_def)
  show "entries ((bp, bq) # brest) \<subseteq> entries ((bp, b # bq) # brest)"
    by (auto simp: entries_Cons)
  show "entries as \<subseteq> entries as" by simp
  show "mset (b # queue_addrs ((bp, bq) # brest) @ queue_addrs as) =
        mset (queue_addrs ((bp, b # bq) # brest) @ queue_addrs as)"
    by simp
qed

lemma index_ok_on_pop_ask:
  assumes ok: "index_ok_on m bs ((ap, a # aq) # arest) os" and st: "same_static m m'"
  shows "index_ok_on m' bs ((ap, aq) # arest) (orders_erase (oid (m' a)) os)"
proof (rule index_ok_on_remove [OF ok st])
  show "sorted_wrt (>) (map fst bs)"
    using ok by (simp add: index_ok_on_def)
  show "sorted_wrt (<) (map fst ((ap, aq) # arest))"
    using ok by (simp add: index_ok_on_def)
  show "entries ((ap, aq) # arest) \<subseteq> entries ((ap, a # aq) # arest)"
    by (auto simp: entries_Cons)
  show "entries bs \<subseteq> entries bs" by simp
  show "mset (a # queue_addrs bs @ queue_addrs ((ap, aq) # arest)) =
        mset (queue_addrs bs @ queue_addrs ((ap, a # aq) # arest))"
    by simp
qed

lemma index_ok_on_static:
  assumes ok: "index_ok_on m bs as os" and st: "same_static m m'"
  shows "index_ok_on m' bs as os"
  by (rule index_ok_on_same [OF ok st]) (use ok in \<open>simp_all add: index_ok_on_def\<close>)

lemma match_one_index_ok:
  assumes ok: "index_ok s" and hn: "heads_nonempty s" and m1: "match_one s = Inr (s', t)"
  shows "index_ok s'"
proof -
  from hn obtain bp b bq brest ap a aq arest where
    bs: "bids s = (bp, b # bq) # brest" and as: "asks s = (ap, a # aq) # arest"
    by (rule heads_shape)
  from m1 obtain m2 where
    fp: "fill_pair (mem s) b a (min (remainingQuantity (mem s b)) (remainingQuantity (mem s a))) = Inr m2"
    and mem': "mem s' = m2"
    and bids': "bids s' = (if IsFilled (m2 b) then (bp, bq) # brest else bids s)"
    and asks': "asks s' = (if IsFilled (m2 a) then (ap, aq) # arest else asks s)"
    and orders': "orders s' =
       (if IsFilled (m2 a) then orders_erase (oid (m2 a)) else (\<lambda>x. x))
       ((if IsFilled (m2 b) then orders_erase (oid (m2 b)) else (\<lambda>x. x)) (orders s))"
    by (rule match_one_Inr) (simp add: bs as pop_front_head_def)
  have st: "same_static (mem s) m2" by (rule fill_pair_static [OF fp])
  from ok have ok0: "index_ok_on (mem s) ((bp, b # bq) # brest) ((ap, a # aq) # arest) (orders s)"
    by (simp add: index_ok_def bs as)
  define bs1 where "bs1 = (if IsFilled (m2 b) then (bp, bq) # brest else (bp, b # bq) # brest)"
  define os1 where "os1 = (if IsFilled (m2 b) then orders_erase (oid (m2 b)) (orders s) else orders s)"
  have ok1: "index_ok_on m2 bs1 ((ap, a # aq) # arest) os1"
    unfolding bs1_def os1_def
    using index_ok_on_pop_bid [OF ok0 st] index_ok_on_static [OF ok0 st] by simp
  define as2 where "as2 = (if IsFilled (m2 a) then (ap, aq) # arest else (ap, a # aq) # arest)"
  define os2 where "os2 = (if IsFilled (m2 a) then orders_erase (oid (m2 a)) os1 else os1)"
  have ok2: "index_ok_on m2 bs1 as2 os2"
    unfolding as2_def os2_def
    using index_ok_on_pop_ask [OF ok1 same_static_refl] ok1 by simp
  have "bids s' = bs1" "asks s' = as2" "orders s' = os2"
    by (simp_all add: bids' asks' orders' bs1_def as2_def os2_def os1_def bs as)
  with ok2 mem' show ?thesis by (simp add: index_ok_def)
qed

lemma match_one_ok:
  assumes ok: "index_ok s" and hn: "heads_nonempty s"
  shows "\<exists>s' t. match_one s = Inr (s', t)"
proof -
  from hn obtain bp b bq brest ap a aq arest where
    bs: "bids s = (bp, b # bq) # brest" and as: "asks s = (ap, a # aq) # arest"
    by (rule heads_shape)
  from ok have "b \<noteq> a"
    by (auto simp: index_ok_def bs as dest: index_ok_on_heads_distinct)
  then have "a \<noteq> b" by simp
  from fill_pair_min [OF this, of "mem s"] show ?thesis
    by (simp add: match_one_def bs as Let_def)
qed

lemma match_level_ok:
  assumes "index_ok s"
  shows "\<exists>s' trades'. match_level s trades = Inr (s', trades')"
  using assms
proof (induction s trades rule: match_level.induct)
  case (1 s trades)
  show ?case
  proof (cases "heads_nonempty s")
    case False
    then show ?thesis by (simp add: match_level.simps [of s])
  next
    case True
    from match_one_ok [OF "1.prems" True] obtain s1 t where m1: "match_one s = Inr (s1, t)"
      by blast
    from match_one_index_ok [OF "1.prems" True m1] have "index_ok s1" .
    from "1.IH" [OF True m1 refl this] show ?thesis
      using True m1 by (simp add: match_level.simps [of s])
  qed
qed

lemma match_level_index_ok:
  assumes "match_level s trades = Inr (s', trades')" and "index_ok s"
  shows "index_ok s'"
proof -
  have "index_ok s' \<and> \<not> heads_nonempty s'"
    by (rule match_level_invariant [OF assms(1), where I = "\<lambda>s ts. index_ok s"])
       (use assms(2) in \<open>auto intro: match_one_index_ok\<close>)
  then show ?thesis by simp
qed


subsection \<open>Erasing emptied levels\<close>

lemma erase_empty_fields:
  assumes "distinct (map fst (bids s1))" and "distinct (map fst (asks s1))"
    and "bids s1 \<noteq> []" and "asks s1 \<noteq> []"
  shows "bids (erase_empty (fst (hd (bids s1))) (fst (hd (asks s1))) s1) =
           (if snd (hd (bids s1)) = [] then tl (bids s1) else bids s1)"
    and "asks (erase_empty (fst (hd (bids s1))) (fst (hd (asks s1))) s1) =
           (if snd (hd (asks s1)) = [] then tl (asks s1) else asks s1)"
    and "mem (erase_empty (fst (hd (bids s1))) (fst (hd (asks s1))) s1) = mem s1"
    and "orders (erase_empty (fst (hd (bids s1))) (fst (hd (asks s1))) s1) = orders s1"
proof -
  from assms(3) obtain bp bq brest where b: "bids s1 = (bp, bq) # brest"
    by (cases "bids s1") auto
  from assms(4) obtain ap aq arest where a: "asks s1 = (ap, aq) # arest"
    by (cases "asks s1") auto
  have eb: "map_erase bp (bids s1) = brest"
    unfolding b using assms(1) [unfolded b] by (rule map_erase_head)
  have ea: "map_erase ap (asks s1) = arest"
    unfolding a using assms(2) [unfolded a] by (rule map_erase_head)
  show "bids (erase_empty (fst (hd (bids s1))) (fst (hd (asks s1))) s1) =
           (if snd (hd (bids s1)) = [] then tl (bids s1) else bids s1)"
    using eb ea by (cases "bq = []"; cases "aq = []") (simp_all add: erase_empty_def Let_def b a)
  show "asks (erase_empty (fst (hd (bids s1))) (fst (hd (asks s1))) s1) =
           (if snd (hd (asks s1)) = [] then tl (asks s1) else asks s1)"
    using eb ea by (cases "bq = []"; cases "aq = []") (simp_all add: erase_empty_def Let_def b a)
  show "mem (erase_empty (fst (hd (bids s1))) (fst (hd (asks s1))) s1) = mem s1"
    by (simp add: erase_empty_def Let_def)
  show "orders (erase_empty (fst (hd (bids s1))) (fst (hd (asks s1))) s1) = orders s1"
    by (simp add: erase_empty_def Let_def)
qed

lemma index_ok_keys:
  assumes "index_ok s"
  shows "distinct (map fst (bids s))" and "distinct (map fst (asks s))"
  using assms by (simp_all add: index_ok_def index_ok_on_def sorted_gt_distinct sorted_lt_distinct)

lemma index_ok_on_drop_empty_bid:
  assumes "index_ok_on m ((bp, []) # brest) as os"
  shows "index_ok_on m brest as os"
  by (rule index_ok_on_same [OF assms same_static_refl])
     (use assms in \<open>auto simp: index_ok_on_def entries_Cons\<close>)

lemma index_ok_on_drop_empty_ask:
  assumes "index_ok_on m bs ((ap, []) # arest) os"
  shows "index_ok_on m bs arest os"
  by (rule index_ok_on_same [OF assms same_static_refl])
     (use assms in \<open>auto simp: index_ok_on_def entries_Cons\<close>)

lemma erase_empty_index_ok:
  assumes ok: "index_ok s1" and nb: "bids s1 \<noteq> []" and na: "asks s1 \<noteq> []"
  shows "index_ok (erase_empty (fst (hd (bids s1))) (fst (hd (asks s1))) s1)"
proof -
  let ?s = "erase_empty (fst (hd (bids s1))) (fst (hd (asks s1))) s1"
  note f = erase_empty_fields [OF index_ok_keys [OF ok] nb na]
  from nb obtain bp bq brest where b: "bids s1 = (bp, bq) # brest"
    by (cases "bids s1") auto
  from na obtain ap aq arest where a: "asks s1 = (ap, aq) # arest"
    by (cases "asks s1") auto
  from ok have ok0: "index_ok_on (mem s1) ((bp, bq) # brest) ((ap, aq) # arest) (orders s1)"
    by (simp add: index_ok_def b a)
  have ok1: "index_ok_on (mem s1) (if bq = [] then brest else (bp, bq) # brest)
               ((ap, aq) # arest) (orders s1)"
    using ok0 index_ok_on_drop_empty_bid [of "mem s1" bp brest "(ap, aq) # arest" "orders s1"]
    by (cases "bq = []") simp_all
  have ok2: "index_ok_on (mem s1) (if bq = [] then brest else (bp, bq) # brest)
               (if aq = [] then arest else (ap, aq) # arest) (orders s1)"
    using ok1 index_ok_on_drop_empty_ask
      [of "mem s1" "if bq = [] then brest else (bp, bq) # brest" ap arest "orders s1"]
    by (cases "aq = []") simp_all
  show ?thesis
    unfolding index_ok_def f using ok2 by (cases "bq = []"; cases "aq = []") (simp_all add: b a)
qed

subsection \<open>The outer loop\<close>

lemma MatchOrders_loop_invariant:
  assumes "MatchOrders_loop s trades = Inr (s', trades')"
    and "I s trades"
    and "\<And>s trades s1 trades1. I s trades \<Longrightarrow> bids s \<noteq> [] \<Longrightarrow> asks s \<noteq> [] \<Longrightarrow>
           \<not> fst (hd (bids s)) < fst (hd (asks s)) \<Longrightarrow> match_level s trades = Inr (s1, trades1)
           \<Longrightarrow> I (erase_empty (fst (hd (bids s))) (fst (hd (asks s))) s1) trades1"
  shows "I s' trades' \<and> (bids s' = [] \<or> asks s' = [] \<or> fst (hd (bids s')) < fst (hd (asks s')))"
  using assms(1,2)
proof (induction s trades rule: MatchOrders_loop.induct)
  case (1 s trades)
  show ?case
  proof (cases "bids s \<noteq> [] \<and> asks s \<noteq> [] \<and> \<not> fst (hd (bids s)) < fst (hd (asks s))")
    case False
    with "1.prems" show ?thesis
      by (auto simp: MatchOrders_loop.simps [of s] split: if_splits)
  next
    case True
    with "1.prems"(1) obtain s1 trades1 where
      ml: "match_level s trades = Inr (s1, trades1)" and
      rec: "MatchOrders_loop (erase_empty (fst (hd (bids s))) (fst (hd (asks s))) s1) trades1
              = Inr (s', trades')"
      by (auto simp: MatchOrders_loop.simps [of s] split: sum.splits)
    from True have c: "bids s \<noteq> [] \<and> asks s \<noteq> []" and n: "\<not> fst (hd (bids s)) < fst (hd (asks s))"
      by simp_all
    from assms(3) [OF "1.prems"(2) _ _ n ml] c
    have "I (erase_empty (fst (hd (bids s))) (fst (hd (asks s))) s1) trades1" by simp
    from "1.IH" [OF c n ml refl rec this] show ?thesis .
  qed
qed

lemma match_level_erase_index_ok:
  assumes ok: "index_ok s" and nb: "bids s \<noteq> []" and na: "asks s \<noteq> []"
    and ml: "match_level s trades = Inr (s1, trades1)"
  shows "index_ok (erase_empty (fst (hd (bids s))) (fst (hd (asks s))) s1)"
proof -
  from match_level_shape [OF ml nb na] have
    sh: "bids s1 \<noteq> []" "asks s1 \<noteq> []" "fst (hd (bids s1)) = fst (hd (bids s))"
      "fst (hd (asks s1)) = fst (hd (asks s))"
    by simp_all
  from erase_empty_index_ok [OF match_level_index_ok [OF ml ok] sh(1,2)]
  show ?thesis by (simp add: sh)
qed

lemma MatchOrders_loop_index_ok:
  assumes "MatchOrders_loop s trades = Inr (s', trades')" and "index_ok s"
  shows "index_ok s'"
proof -
  have "index_ok s' \<and> (bids s' = [] \<or> asks s' = [] \<or> fst (hd (bids s')) < fst (hd (asks s')))"
    by (rule MatchOrders_loop_invariant [OF assms(1), where I = "\<lambda>s ts. index_ok s"])
       (use assms(2) in \<open>auto intro: match_level_erase_index_ok\<close>)
  then show ?thesis by simp
qed

lemma MatchOrders_loop_ok:
  assumes "index_ok s"
  shows "\<exists>s' trades'. MatchOrders_loop s trades = Inr (s', trades')"
  using assms
proof (induction s trades rule: MatchOrders_loop.induct)
  case (1 s trades)
  show ?case
  proof (cases "bids s \<noteq> [] \<and> asks s \<noteq> [] \<and> \<not> fst (hd (bids s)) < fst (hd (asks s))")
    case False
    then show ?thesis
      by (auto simp: MatchOrders_loop.simps [of s])
  next
    case True
    then have c: "bids s \<noteq> [] \<and> asks s \<noteq> []" and n: "\<not> fst (hd (bids s)) < fst (hd (asks s))"
      by simp_all
    from match_level_ok [OF "1.prems"] obtain s1 trades1 where
      ml: "match_level s trades = Inr (s1, trades1)" by blast
    from c have "index_ok (erase_empty (fst (hd (bids s))) (fst (hd (asks s))) s1)"
      using match_level_erase_index_ok [OF "1.prems" _ _ ml] by simp
    from "1.IH" [OF c n ml refl this] show ?thesis
      using c n ml by (simp add: MatchOrders_loop.simps [of s])
  qed
qed


subsection \<open>Cancel\<close>

definition levels_nonempty :: "levels \<Rightarrow> bool" where
  "levels_nonempty m = (\<forall>kv \<in> set m. snd kv \<noteq> [])"

lemma in_queue_level:
  "a \<in> set (queue_addrs m) \<Longrightarrow> \<exists>p c. (p, c) \<in> set m \<and> a \<in> set c"
  unfolding queue_addrs_def set_concat by force

lemma in_queue_map_of:
  assumes d: "distinct (map fst m)" and a: "a \<in> set (queue_addrs m)"
    and l: "level_all (\<lambda>p x. f x = p) m"
  shows "\<exists>c. map_of m (f a) = Some c \<and> a \<in> set c"
proof -
  from in_queue_level [OF a] obtain p c where pc: "(p, c) \<in> set m" "a \<in> set c" by blast
  with l have "f a = p" by (auto simp: level_all_def)
  moreover from d pc(1) have "map_of m p = Some c" by (rule map_of_is_SomeI)
  ultimately show ?thesis using pc(2) by simp
qed

definition level_erased :: "Price \<Rightarrow> addr \<Rightarrow> addr list \<Rightarrow> levels \<Rightarrow> levels" where
  "level_erased p a c m = (if remove1 a c = [] then map_erase p m else map_assign p (remove1 a c) m)"

lemma level_erase_Inr:
  "map_of m p = Some c \<Longrightarrow> level_erase p a m = Inr (level_erased p a c m)"
  by (simp add: level_erase_def level_erased_def Let_def)

lemma level_erased_mset:
  assumes d: "distinct (map fst m)" and c: "map_of m p = Some c" and a: "a \<in> set c"
  shows "mset (a # queue_addrs (level_erased p a c m)) = mset (queue_addrs m)"
proof -
  have 1: "mset (queue_addrs (level_erased p a c m)) =
           mset (queue_addrs (map_erase p m)) + mset (remove1 a c)"
    by (cases "remove1 a c = []") (simp_all add: level_erased_def map_assign_mset [OF d c])
  have 2: "add_mset a (mset (remove1 a c)) = mset c"
    using a by simp
  have "mset (a # queue_addrs (level_erased p a c m)) =
        mset (queue_addrs (map_erase p m)) + add_mset a (mset (remove1 a c))"
    by (simp add: 1)
  also have "\<dots> = mset (queue_addrs (map_erase p m)) + mset c"
    by (simp only: 2)
  also have "\<dots> = mset (queue_addrs m)"
    by (rule map_of_level_mset [OF d c])
  finally show ?thesis .
qed

lemma level_erased_entries:
  assumes "map_of m p = Some c"
  shows "entries (level_erased p a c m) \<subseteq> entries m"
proof (cases "remove1 a c = []")
  case True
  then show ?thesis by (simp add: level_erased_def entries_map_erase)
next
  case False
  have "set (remove1 a c) \<subseteq> set c" by (rule set_remove1_subset)
  from entries_map_assign [OF assms this] False show ?thesis
    by (simp add: level_erased_def)
qed

lemma level_erased_sorted:
  assumes "sorted_wrt R (map fst m)"
  shows "sorted_wrt R (map fst (level_erased p a c m))"
  using assms by (simp add: level_erased_def map_erase_keys sorted_wrt_filter)

lemma level_erased_nonempty:
  assumes "levels_nonempty m"
  shows "levels_nonempty (level_erased p a c m)"
  using assms
  by (auto simp: level_erased_def levels_nonempty_def map_erase_def map_assign_def)

lemma index_ok_on_lookup:
  assumes ok: "index_ok_on m bs as os" and l: "map_of os i = Some a"
  shows "a \<in> set (queue_addrs bs @ queue_addrs as)" and "oid (m a) = i"
proof -
  from l have "(i, a) \<in> set os" by (rule map_of_SomeD)
  with ok have "(i, a) \<in> (\<lambda>a. (oid (m a), a)) ` set (queue_addrs bs @ queue_addrs as)"
    by (simp only: index_ok_on_def)
  then obtain x where "x \<in> set (queue_addrs bs @ queue_addrs as)" "(i, a) = (oid (m x), x)"
    by (rule imageE)
  then show "a \<in> set (queue_addrs bs @ queue_addrs as)" and "oid (m a) = i" by simp_all
qed

lemma index_ok_on_find_ask:
  assumes ok: "index_ok_on m bs as os" and l: "map_of os i = Some a" and sd: "oside (m a) = Sell"
  shows "\<exists>c. map_of as (oprice (m a)) = Some c \<and> a \<in> set c"
proof -
  from ok have lb: "level_all (\<lambda>p a. oside (m a) = Buy \<and> oprice (m a) = p) bs"
    and la: "level_all (\<lambda>p a. oside (m a) = Sell \<and> oprice (m a) = p) as"
    and d: "distinct (map fst as)"
    by (simp_all add: index_ok_on_def sorted_lt_distinct)
  have "a \<notin> set (queue_addrs bs)"
  proof
    assume "a \<in> set (queue_addrs bs)"
    from in_queue_level [OF this] lb have "oside (m a) = Buy" by (auto simp: level_all_def)
    with sd show False by simp
  qed
  with index_ok_on_lookup(1) [OF ok l] have a: "a \<in> set (queue_addrs as)" by simp
  have "level_all (\<lambda>p x. oprice (m x) = p) as"
    using la by (simp add: level_all_def)
  from in_queue_map_of [OF d a this] show ?thesis .
qed

lemma index_ok_on_find_bid:
  assumes ok: "index_ok_on m bs as os" and l: "map_of os i = Some a" and sd: "oside (m a) \<noteq> Sell"
  shows "\<exists>c. map_of bs (oprice (m a)) = Some c \<and> a \<in> set c"
proof -
  from ok have lb: "level_all (\<lambda>p a. oside (m a) = Buy \<and> oprice (m a) = p) bs"
    and la: "level_all (\<lambda>p a. oside (m a) = Sell \<and> oprice (m a) = p) as"
    and d: "distinct (map fst bs)"
    by (simp_all add: index_ok_on_def sorted_gt_distinct)
  have "a \<notin> set (queue_addrs as)"
  proof
    assume "a \<in> set (queue_addrs as)"
    from in_queue_level [OF this] la have "oside (m a) = Sell" by (auto simp: level_all_def)
    with sd show False by simp
  qed
  with index_ok_on_lookup(1) [OF ok l] have a: "a \<in> set (queue_addrs bs)" by simp
  have "level_all (\<lambda>p x. oprice (m x) = p) bs"
    using lb by (simp add: level_all_def)
  from in_queue_map_of [OF d a this] show ?thesis .
qed

lemma index_ok_on_cancel_ask:
  assumes ok: "index_ok_on m bs as os" and c: "map_of as p = Some c" and a: "a \<in> set c"
  shows "index_ok_on m bs (level_erased p a c as) (orders_erase (oid (m a)) os)"
proof (rule index_ok_on_remove [OF ok same_static_refl])
  from ok have d: "distinct (map fst as)" by (simp add: index_ok_on_def sorted_lt_distinct)
  show "sorted_wrt (>) (map fst bs)" using ok by (simp add: index_ok_on_def)
  show "sorted_wrt (<) (map fst (level_erased p a c as))"
    using ok by (simp add: index_ok_on_def level_erased_sorted)
  show "entries bs \<subseteq> entries bs" by simp
  show "entries (level_erased p a c as) \<subseteq> entries as" by (rule level_erased_entries [OF c])
  show "mset (a # queue_addrs bs @ queue_addrs (level_erased p a c as)) =
        mset (queue_addrs bs @ queue_addrs as)"
    using level_erased_mset [OF d c a] by simp
qed

lemma index_ok_on_cancel_bid:
  assumes ok: "index_ok_on m bs as os" and c: "map_of bs p = Some c" and a: "a \<in> set c"
  shows "index_ok_on m (level_erased p a c bs) as (orders_erase (oid (m a)) os)"
proof (rule index_ok_on_remove [OF ok same_static_refl])
  from ok have d: "distinct (map fst bs)" by (simp add: index_ok_on_def sorted_gt_distinct)
  show "sorted_wrt (<) (map fst as)" using ok by (simp add: index_ok_on_def)
  show "sorted_wrt (>) (map fst (level_erased p a c bs))"
    using ok by (simp add: index_ok_on_def level_erased_sorted)
  show "entries as \<subseteq> entries as" by simp
  show "entries (level_erased p a c bs) \<subseteq> entries bs" by (rule level_erased_entries [OF c])
  show "mset (a # queue_addrs (level_erased p a c bs) @ queue_addrs as) =
        mset (queue_addrs bs @ queue_addrs as)"
    using level_erased_mset [OF d c a] by simp
qed

lemma CancelOrderInternal_unknown:
  "map_of (orders s) i = None \<Longrightarrow> CancelOrderInternal i s = Inr s"
  by (simp add: CancelOrderInternal_def)

text \<open>Cancelling a live order in a consistent book: the explicit result.\<close>

lemma CancelOrderInternal_known:
  assumes ok: "index_ok s" and l: "map_of (orders s) i = Some a"
  obtains c where
    "oside (mem s a) = Sell" "map_of (asks s) (oprice (mem s a)) = Some c" "a \<in> set c"
    "CancelOrderInternal i s = Inr (s\<lparr>orders := orders_erase i (orders s),
        asks := level_erased (oprice (mem s a)) a c (asks s),
        ldata := OnOrderCancelled (mem s a) (ldata s)\<rparr>)"
  | c where
    "oside (mem s a) = Buy" "map_of (bids s) (oprice (mem s a)) = Some c" "a \<in> set c"
    "CancelOrderInternal i s = Inr (s\<lparr>orders := orders_erase i (orders s),
        bids := level_erased (oprice (mem s a)) a c (bids s),
        ldata := OnOrderCancelled (mem s a) (ldata s)\<rparr>)"
proof (cases "oside (mem s a) = Sell")
  case True
  from ok have ok': "index_ok_on (mem s) (bids s) (asks s) (orders s)" by (simp add: index_ok_def)
  from index_ok_on_find_ask [OF ok' l True] obtain c where
    c: "map_of (asks s) (oprice (mem s a)) = Some c" "a \<in> set c" by blast
  have "CancelOrderInternal i s = Inr (s\<lparr>orders := orders_erase i (orders s),
        asks := level_erased (oprice (mem s a)) a c (asks s),
        ldata := OnOrderCancelled (mem s a) (ldata s)\<rparr>)"
    using l True by (simp add: CancelOrderInternal_def Let_def level_erase_Inr [OF c(1)])
  with True c show ?thesis by (rule that(1))
next
  case False
  then have b: "oside (mem s a) = Buy" by (cases "oside (mem s a)") simp_all
  from ok have ok': "index_ok_on (mem s) (bids s) (asks s) (orders s)" by (simp add: index_ok_def)
  from index_ok_on_find_bid [OF ok' l False] obtain c where
    c: "map_of (bids s) (oprice (mem s a)) = Some c" "a \<in> set c" by blast
  have "CancelOrderInternal i s = Inr (s\<lparr>orders := orders_erase i (orders s),
        bids := level_erased (oprice (mem s a)) a c (bids s),
        ldata := OnOrderCancelled (mem s a) (ldata s)\<rparr>)"
    using l b by (simp add: CancelOrderInternal_def Let_def level_erase_Inr [OF c(1)])
  with b c show ?thesis by (rule that(2))
qed

lemma CancelOrderInternal_index_ok:
  assumes ok: "index_ok s"
  shows "\<exists>s'. CancelOrderInternal i s = Inr s' \<and> index_ok s' \<and> mem s' = mem s"
proof (cases "map_of (orders s) i")
  case None
  with ok show ?thesis by (simp add: CancelOrderInternal_unknown)
next
  case (Some a)
  from ok have ok': "index_ok_on (mem s) (bids s) (asks s) (orders s)" by (simp add: index_ok_def)
  have i: "oid (mem s a) = i" by (rule index_ok_on_lookup(2) [OF ok' Some])
  from ok Some show ?thesis
  proof (cases rule: CancelOrderInternal_known)
    case (1 c)
    from index_ok_on_cancel_ask [OF ok' 1(2,3)] show ?thesis
      by (simp add: 1(4) index_ok_def i)
  next
    case (2 c)
    from index_ok_on_cancel_bid [OF ok' 2(2,3)] show ?thesis
      by (simp add: 2(4) index_ok_def i)
  qed
qed


section \<open>Concrete books\<close>

text \<open>The book after \<open>AddOrder\<close> of a GoodTillCancel buy, id 1, price 100, quantity 10,
  held at address 1, on a new book.\<close>

definition book_one_bid :: OrderBook where
  "book_one_bid =
     \<lparr>mem = (\<lambda>a. empty_order)(1 := Order_new GoodTillCancel 1 Buy 100 10),
      bids = [(100, [1])], asks = [], orders = [(1, 1)],
      ldata = (\<lambda>p. None)(100 \<mapsto> \<lparr>ld_count = 1, ld_quantity = 10\<rparr>)\<rparr>"

lemmas eval_defs =
  AddOrder_def convert_market_def insert_order_def MatchOrders_def cancel_front_FillAndKill_def
  CancelOrderInternal_def CancelOrder_def ModifyOrder_def make_shared_def Order_new_def
  orders_contains_def orders_insert_def orders_erase_def OnOrderAdded_def OnOrderCancelled_def
  OnOrderMatched_def CanMatch_def CanFullyFill_def level_erase_def map_erase_def map_assign_def
  MatchOrders_loop.simps match_level.simps match_one_def fill_pair_def Order_Fill_def
  IsFilled_def heads_nonempty_def pop_front_head_def erase_empty_def ToGoodTillCancel_def
  ToOrderPointer_def OrderBook_new_def empty_order_def Let_def

lemma book_one_bid_reached:
  "AddOrder 1 (make_shared 1 (Order_new GoodTillCancel 1 Buy 100 10) OrderBook_new) =
     Inr ([], book_one_bid)"
  by (simp add: eval_defs book_one_bid_def)

section \<open>Caller misuse\<close>

lemma map_of_orders_erase: "map_of (orders_erase i os) i = None"
  by (induction os) (auto simp: orders_erase_def)

lemma CancelOrderInternal_erases:
  assumes "CancelOrderInternal i s = Inr s'" and "map_of (orders s) i = Some a"
  shows "orders s' = orders_erase i (orders s)"
  using assms
  by (auto simp: CancelOrderInternal_def Let_def split: sum.splits if_splits)

text \<open>
  Claim C9. Caller misuse is an outcome, not an error. \<open>AddOrder\<close> of an order whose id
  is live returns the empty trade list and the book as it was. \<open>CancelOrder\<close> of an id
  that is not live returns the book as it was, so \<open>Size\<close> and the level snapshots are
  the same; and after a cancel that returned, the same cancel again changes nothing.
  \<open>ModifyOrder\<close> of an id that is not live returns the empty trade list and the book
  as it was. Each of these results is a return (\<open>Inr\<close>), never an exception.
\<close>

theorem misuse_is_no_op:
  "(orders_contains (orders s) (oid (mem s a)) \<longrightarrow> AddOrder a s = Inr ([], s)) \<and>
   (\<not> orders_contains (orders s) i \<longrightarrow>
      CancelOrder i s = Inr s \<and>
      (\<forall>s'. CancelOrder i s = Inr s' \<longrightarrow>
         Size s' = Size s \<and> GetBidLevels av d s' = GetBidLevels av d s \<and>
         GetAskLevels av d s' = GetAskLevels av d s)) \<and>
   (\<forall>s'. CancelOrder i s = Inr s' \<longrightarrow> CancelOrder i s' = Inr s') \<and>
   (\<not> orders_contains (orders s) (m_orderId md) \<longrightarrow> ModifyOrder md b s = Inr ([], s))"
proof (intro conjI impI allI)
  assume "orders_contains (orders s) (oid (mem s a))"
  then show "AddOrder a s = Inr ([], s)" by (simp add: AddOrder_def)
next
  assume "\<not> orders_contains (orders s) i"
  then show "CancelOrder i s = Inr s"
    by (simp add: CancelOrder_def orders_contains_def CancelOrderInternal_unknown)
next
  fix s' assume "\<not> orders_contains (orders s) i" and "CancelOrder i s = Inr s'"
  then have "s' = s"
    by (simp add: CancelOrder_def orders_contains_def CancelOrderInternal_unknown)
  then show "Size s' = Size s" "GetBidLevels av d s' = GetBidLevels av d s"
    "GetAskLevels av d s' = GetAskLevels av d s" by simp_all
next
  fix s' assume c: "CancelOrder i s = Inr s'"
  show "CancelOrder i s' = Inr s'"
  proof (cases "map_of (orders s) i")
    case None
    with c show ?thesis by (simp add: CancelOrder_def CancelOrderInternal_unknown)
  next
    case (Some x)
    from c have "orders s' = orders_erase i (orders s)"
      unfolding CancelOrder_def using Some by (rule CancelOrderInternal_erases)
    then have "map_of (orders s') i = None" by (simp add: map_of_orders_erase)
    then show ?thesis by (simp add: CancelOrder_def CancelOrderInternal_unknown)
  qed
next
  assume "\<not> orders_contains (orders s) (m_orderId md)"
  then show "ModifyOrder md b s = Inr ([], s)"
    by (simp add: ModifyOrder_def orders_contains_def)
qed

theorem misuse_is_no_op_witness:
  "AddOrder 1 book_one_bid = Inr ([], book_one_bid) \<and>
   CancelOrder 7 book_one_bid = Inr book_one_bid \<and>
   Size book_one_bid = 1 \<and>
   (\<exists>s'. CancelOrder 1 book_one_bid = Inr s' \<and> CancelOrder 1 s' = Inr s' \<and> Size s' = 0) \<and>
   ModifyOrder \<lparr>m_orderId = 7, m_side = Sell, m_price = 90, m_quantity = 3\<rparr> 2 book_one_bid =
     Inr ([], book_one_bid)"
proof -
  have 1: "orders_contains (orders book_one_bid) (oid (mem book_one_bid 1))"
    by (simp add: book_one_bid_def orders_contains_def Order_new_def)
  have 2: "\<not> orders_contains (orders book_one_bid) 7"
    by (simp add: book_one_bid_def orders_contains_def)
  obtain s' where 3: "CancelOrder 1 book_one_bid = Inr s'" and 4: "Size s' = 0"
    by (simp add: eval_defs book_one_bid_def Size_def)
  note t = misuse_is_no_op [where s = book_one_bid and a = 1 and i = 7 and b = 2 and
      md = "\<lparr>m_orderId = 7, m_side = Sell, m_price = 90, m_quantity = 3\<rparr>"]
  from t 1 have "AddOrder 1 book_one_bid = Inr ([], book_one_bid)" by blast
  moreover from t 2 have "CancelOrder 7 book_one_bid = Inr book_one_bid" by blast
  moreover have "Size book_one_bid = 1" by (simp add: Size_def book_one_bid_def)
  moreover from misuse_is_no_op [where s = book_one_bid and a = 1 and i = 1 and b = 2 and
      md = "\<lparr>m_orderId = 7, m_side = Sell, m_price = 90, m_quantity = 3\<rparr>"] 3
  have "CancelOrder 1 s' = Inr s'" by blast
  moreover from t 2 have "ModifyOrder \<lparr>m_orderId = 7, m_side = Sell, m_price = 90, m_quantity = 3\<rparr>
      2 book_one_bid = Inr ([], book_one_bid)" by simp
  ultimately show ?thesis using 3 4 by blast
qed


section \<open>Sequences of calls\<close>

text \<open>
  A caller of the public interface, as \<open>main\<close> is: each \<open>CallAdd\<close> builds a new order
  with \<open>std::make_shared<Order>(type, id, side, price, quantity)\<close> and passes it to
  \<open>AddOrder\<close>. The counter is the address the next allocation returns. \<open>CallPrune\<close> is
  the sweeper waking at the cutoff.
\<close>

datatype call =
    CallAdd OrderType OrderId Side Price Quantity
  | CallCancel OrderId
  | CallModify OrderModify
  | CallPrune

fun run :: "addr \<Rightarrow> call list \<Rightarrow> OrderBook \<Rightarrow> error + OrderBook" where
  "run n [] s = Inr s"
| "run n (CallAdd t i sd p q # cs) s =
     (case AddOrder n (make_shared n (Order_new t i sd p q) s) of
        Inl e \<Rightarrow> Inl e
      | Inr r \<Rightarrow> run (Suc n) cs (snd r))"
| "run n (CallCancel i # cs) s =
     (case CancelOrder i s of Inl e \<Rightarrow> Inl e | Inr s' \<Rightarrow> run n cs s')"
| "run n (CallModify md # cs) s =
     (case ModifyOrder md n s of Inl e \<Rightarrow> Inl e | Inr r \<Rightarrow> run (Suc n) cs (snd r))"
| "run n (CallPrune # cs) s =
     (case PruneGoodForDayOrders s of Inl e \<Rightarrow> Inl e | Inr s' \<Rightarrow> run n cs s')"

text \<open>The book after a GoodTillCancel buy of 5 at 100 (id 1) and then a GoodTillCancel
  sell of 10 at 100 (id 2): the sell trades 5 and rests with 5 remaining.\<close>

definition book_same_price :: OrderBook where
  "book_same_price =
     \<lparr>mem = (\<lambda>a. empty_order)
        (0 := (Order_new GoodTillCancel 1 Buy 100 5)\<lparr>remainingQuantity := 0\<rparr>,
         Suc 0 := (Order_new GoodTillCancel 2 Sell 100 10)\<lparr>remainingQuantity := 5\<rparr>),
      bids = [], asks = [(100, [Suc 0])], orders = [(2, Suc 0)],
      ldata = (\<lambda>p. None)\<rparr>"

lemma book_same_price_reached:
  "run 0 [CallAdd GoodTillCancel 1 Buy 100 5, CallAdd GoodTillCancel 2 Sell 100 10] OrderBook_new
     = Inr book_same_price"
  by (simp add: eval_defs book_same_price_def fun_eq_iff)

text \<open>The same book after two more calls: a GoodTillCancel sell of 1 at 100 (id 3)
  and a GoodTillCancel buy of 3 at 101 (id 4). The aggregate at 100 was re-created by
  order 3 with quantity 1, and the fill of 3 against order 2 was subtracted from it.\<close>

definition book_wrapped :: OrderBook where
  "book_wrapped =
     \<lparr>mem = (\<lambda>a. empty_order)
        (0 := (Order_new GoodTillCancel 1 Buy 100 5)\<lparr>remainingQuantity := 0\<rparr>,
         Suc 0 := (Order_new GoodTillCancel 2 Sell 100 10)\<lparr>remainingQuantity := 2\<rparr>,
         2 := Order_new GoodTillCancel 3 Sell 100 1,
         3 := (Order_new GoodTillCancel 4 Buy 101 3)\<lparr>remainingQuantity := 0\<rparr>),
      bids = [], asks = [(100, [Suc 0, 2])], orders = [(2, Suc 0), (3, 2)],
      ldata = (\<lambda>p. None)(100 \<mapsto> \<lparr>ld_count = 1, ld_quantity = - 2\<rparr>)\<rparr>"

lemma book_wrapped_reached:
  "run 0 [CallAdd GoodTillCancel 1 Buy 100 5, CallAdd GoodTillCancel 2 Sell 100 10,
          CallAdd GoodTillCancel 3 Sell 100 1, CallAdd GoodTillCancel 4 Buy 101 3] OrderBook_new
     = Inr book_wrapped"
  by (simp add: eval_defs book_wrapped_def fun_eq_iff)

section \<open>FillOrKill\<close>

text \<open>
  Claim C1, evaluated on the code. In \<open>book_same_price\<close> five units rest on the ask side
  at price 100, and a FillOrKill buy of 5 at 100 is rejected: \<open>CanFullyFill\<close> reads the
  level aggregate, which \<open>MatchOrders\<close> erased when the bid queue at 100 emptied. In
  \<open>book_wrapped\<close> three units rest at 100 and the aggregate holds \<open>2^64 - 2\<close>; a
  FillOrKill buy of 50 at 100 is accepted, trades 2 and 1, and rests with 47 remaining.
\<close>

theorem FillOrKill_not_all_or_nothing:
  "run 0 [CallAdd GoodTillCancel 1 Buy 100 5, CallAdd GoodTillCancel 2 Sell 100 10] OrderBook_new
     = Inr book_same_price \<and>
   GetAskLevels 5 5 book_same_price = Inr [(100, 5)] \<and>
   AddOrder 2 (make_shared 2 (Order_new FillOrKill 3 Buy 100 5) book_same_price) =
     Inr ([], make_shared 2 (Order_new FillOrKill 3 Buy 100 5) book_same_price) \<and>
   run 0 [CallAdd GoodTillCancel 1 Buy 100 5, CallAdd GoodTillCancel 2 Sell 100 10,
          CallAdd GoodTillCancel 3 Sell 100 1, CallAdd GoodTillCancel 4 Buy 101 3] OrderBook_new
     = Inr book_wrapped \<and>
   GetAskLevels 5 5 book_wrapped = Inr [(100, 3)] \<and>
   (\<exists>ts s'. AddOrder 4 (make_shared 4 (Order_new FillOrKill 5 Buy 100 50) book_wrapped) =
       Inr (ts, s') \<and>
     map (\<lambda>t. (orderId (bid t), orderId (ask t), quantity (bid t))) ts = [(5, 2, 2), (5, 3, 1)] \<and>
     bids s' = [(100, [4])] \<and> otype (mem s' 4) = FillOrKill \<and>
     initialQuantity (mem s' 4) = 50 \<and> remainingQuantity (mem s' 4) = 47 \<and> Size s' = 1)"
proof (intro conjI)
  show "GetAskLevels 5 5 book_same_price = Inr [(100, 5)]"
    by (simp add: GetAskLevels_def vector_reserve_def vector_max_size_def book_same_price_def
        Order_new_def)
  show "AddOrder 2 (make_shared 2 (Order_new FillOrKill 3 Buy 100 5) book_same_price) =
     Inr ([], make_shared 2 (Order_new FillOrKill 3 Buy 100 5) book_same_price)"
    by (simp add: eval_defs book_same_price_def)
  show "GetAskLevels 5 5 book_wrapped = Inr [(100, 3)]"
    by (simp add: GetAskLevels_def vector_reserve_def vector_max_size_def book_wrapped_def
        Order_new_def)
  show "\<exists>ts s'. AddOrder 4 (make_shared 4 (Order_new FillOrKill 5 Buy 100 50) book_wrapped) =
       Inr (ts, s') \<and>
     map (\<lambda>t. (orderId (bid t), orderId (ask t), quantity (bid t))) ts = [(5, 2, 2), (5, 3, 1)] \<and>
     bids s' = [(100, [4])] \<and> otype (mem s' 4) = FillOrKill \<and>
     initialQuantity (mem s' 4) = 50 \<and> remainingQuantity (mem s' 4) = 47 \<and> Size s' = 1"
    by (simp add: eval_defs book_wrapped_def Size_def)
qed (rule book_same_price_reached book_wrapped_reached)+

section \<open>The level aggregate\<close>

text \<open>
  Claim C2, evaluated on the code. After a buy of 5 at 100 and a sell of 10 at 100, the
  sell order rests at price 100 with 5 remaining and is the one live order, and there is
  no level aggregate at price 100: \<open>MatchOrders\<close> erased it together with the emptied bid
  queue at that price.
\<close>

theorem level_aggregate_lost:
  "run 0 [CallAdd GoodTillCancel 1 Buy 100 5, CallAdd GoodTillCancel 2 Sell 100 10] OrderBook_new
     = Inr book_same_price \<and>
   asks book_same_price = [(100, [Suc 0])] \<and>
   orders book_same_price = [(2, Suc 0)] \<and>
   remainingQuantity (mem book_same_price (Suc 0)) = 5 \<and>
   ldata book_same_price 100 = None"
  using book_same_price_reached by (simp add: book_same_price_def Order_new_def)


section \<open>Well-formed books\<close>

text \<open>
  \<open>uncrossed\<close>: every bid price is below every ask price. \<open>resting_ok\<close>: no resting
  order is a Market order, and none has more remaining than its initial quantity.
  \<open>no_FillAndKill\<close>: no resting order is a FillAndKill order. A well-formed book is
  what the public operations leave behind.
\<close>

definition uncrossed :: "OrderBook \<Rightarrow> bool" where
  "uncrossed s = (\<forall>bp \<in> fst ` set (bids s). \<forall>ap \<in> fst ` set (asks s). bp < ap)"

definition resting_ok :: "OrderBook \<Rightarrow> bool" where
  "resting_ok s = (\<forall>a \<in> set (book_addrs s).
     otype (mem s a) \<noteq> Market \<and> remainingQuantity (mem s a) \<le> initialQuantity (mem s a))"

definition no_FillAndKill :: "OrderBook \<Rightarrow> bool" where
  "no_FillAndKill s = (\<forall>a \<in> set (book_addrs s). otype (mem s a) \<noteq> FillAndKill)"

definition well_formed :: "OrderBook \<Rightarrow> bool" where
  "well_formed s = (index_ok s \<and> levels_nonempty (bids s) \<and> levels_nonempty (asks s) \<and>
           uncrossed s \<and> resting_ok s \<and> no_FillAndKill s)"

text \<open>\<open>shrinks s s'\<close>: from \<open>s\<close> to \<open>s'\<close> orders were only filled or removed.\<close>

definition shrinks :: "OrderBook \<Rightarrow> OrderBook \<Rightarrow> bool" where
  "shrinks s s' =
     (same_static (mem s) (mem s') \<and>
      (\<forall>x. remainingQuantity (mem s' x) \<le> remainingQuantity (mem s x)) \<and>
      (\<forall>x. x \<notin> set (book_addrs s) \<longrightarrow> mem s' x = mem s x) \<and>
      entries (bids s') \<subseteq> entries (bids s) \<and> entries (asks s') \<subseteq> entries (asks s) \<and>
      set (orders s') \<subseteq> set (orders s) \<and>
      fst ` set (bids s') \<subseteq> fst ` set (bids s) \<and> fst ` set (asks s') \<subseteq> fst ` set (asks s))"

lemma shrinksI:
  assumes "same_static (mem s) (mem s')"
    and "\<And>x. remainingQuantity (mem s' x) \<le> remainingQuantity (mem s x)"
    and "\<And>x. x \<notin> set (book_addrs s) \<Longrightarrow> mem s' x = mem s x"
    and "entries (bids s') \<subseteq> entries (bids s)" and "entries (asks s') \<subseteq> entries (asks s)"
    and "set (orders s') \<subseteq> set (orders s)"
    and "fst ` set (bids s') \<subseteq> fst ` set (bids s)" and "fst ` set (asks s') \<subseteq> fst ` set (asks s)"
  shows "shrinks s s'"
  unfolding shrinks_def using assms by (intro conjI allI impI)

lemma shrinksD:
  assumes "shrinks s s'"
  shows "same_static (mem s) (mem s')"
    and "remainingQuantity (mem s' x) \<le> remainingQuantity (mem s x)"
    and "x \<notin> set (book_addrs s) \<Longrightarrow> mem s' x = mem s x"
    and "entries (bids s') \<subseteq> entries (bids s)" and "entries (asks s') \<subseteq> entries (asks s)"
    and "set (orders s') \<subseteq> set (orders s)"
    and "fst ` set (bids s') \<subseteq> fst ` set (bids s)" and "fst ` set (asks s') \<subseteq> fst ` set (asks s)"
  using assms unfolding shrinks_def by simp_all

lemma book_addrs_entries:
  "set (book_addrs s) = snd ` entries (bids s) \<union> snd ` entries (asks s)"
  by (simp add: book_addrs_def entries_addrs)

lemma shrinks_addrs:
  assumes "shrinks s s'"
  shows "set (book_addrs s') \<subseteq> set (book_addrs s)"
  unfolding book_addrs_entries using shrinksD(4,5) [OF assms] by blast

lemma shrinks_refl [simp]: "shrinks s s"
  by (rule shrinksI) simp_all

lemma shrinks_trans:
  assumes 1: "shrinks s s1" and 2: "shrinks s1 s2"
  shows "shrinks s s2"
proof (rule shrinksI)
  from shrinks_addrs [OF 1] have sub: "set (book_addrs s1) \<subseteq> set (book_addrs s)" .
  show "same_static (mem s) (mem s2)"
    using shrinksD(1) [OF 1] shrinksD(1) [OF 2] by (rule same_static_trans)
  show "remainingQuantity (mem s2 x) \<le> remainingQuantity (mem s x)" for x
    using shrinksD(2) [OF 2, of x] shrinksD(2) [OF 1, of x] by (rule order_trans)
  show "mem s2 x = mem s x" if x: "x \<notin> set (book_addrs s)" for x
  proof -
    from x sub have "x \<notin> set (book_addrs s1)" by blast
    then have "mem s2 x = mem s1 x" by (rule shrinksD(3) [OF 2])
    also from x have "\<dots> = mem s x" by (rule shrinksD(3) [OF 1])
    finally show ?thesis .
  qed
  show "entries (bids s2) \<subseteq> entries (bids s)"
    using shrinksD(4) [OF 2] shrinksD(4) [OF 1] by (rule subset_trans)
  show "entries (asks s2) \<subseteq> entries (asks s)"
    using shrinksD(5) [OF 2] shrinksD(5) [OF 1] by (rule subset_trans)
  show "set (orders s2) \<subseteq> set (orders s)"
    using shrinksD(6) [OF 2] shrinksD(6) [OF 1] by (rule subset_trans)
  show "fst ` set (bids s2) \<subseteq> fst ` set (bids s)"
    using shrinksD(7) [OF 2] shrinksD(7) [OF 1] by (rule subset_trans)
  show "fst ` set (asks s2) \<subseteq> fst ` set (asks s)"
    using shrinksD(8) [OF 2] shrinksD(8) [OF 1] by (rule subset_trans)
qed

lemma shrinks_uncrossed:
  assumes "shrinks s s'" and "uncrossed s"
  shows "uncrossed s'"
  using shrinksD(7,8) [OF assms(1)] assms(2) unfolding uncrossed_def by blast

lemma shrinks_resting_ok:
  assumes sh: "shrinks s s'" and r: "resting_ok s"
  shows "resting_ok s'"
  unfolding resting_ok_def
proof (intro ballI)
  fix a assume "a \<in> set (book_addrs s')"
  with shrinks_addrs [OF sh] have a: "a \<in> set (book_addrs s)" by blast
  from shrinksD(1) [OF sh] have t: "otype (mem s' a) = otype (mem s a)"
    and i: "initialQuantity (mem s' a) = initialQuantity (mem s a)"
    by (simp_all add: same_static_def)
  have l: "remainingQuantity (mem s' a) \<le> remainingQuantity (mem s a)"
    by (rule shrinksD(2) [OF sh])
  from r a have "otype (mem s a) \<noteq> Market"
    "remainingQuantity (mem s a) \<le> initialQuantity (mem s a)"
    by (simp_all add: resting_ok_def)
  with t i l show "otype (mem s' a) \<noteq> Market \<and>
      remainingQuantity (mem s' a) \<le> initialQuantity (mem s' a)"
    by simp
qed

lemma shrinks_no_FillAndKill:
  assumes sh: "shrinks s s'" and r: "no_FillAndKill s"
  shows "no_FillAndKill s'"
  unfolding no_FillAndKill_def
proof (intro ballI)
  fix a assume "a \<in> set (book_addrs s')"
  with shrinks_addrs [OF sh] have a: "a \<in> set (book_addrs s)" by blast
  from shrinksD(1) [OF sh] have t: "otype (mem s' a) = otype (mem s a)"
    by (simp add: same_static_def)
  with r a show "otype (mem s' a) \<noteq> FillAndKill" by (simp add: no_FillAndKill_def)
qed

subsection \<open>Each step shrinks\<close>

lemma entries_keys: "fst ` entries m \<subseteq> fst ` set m"
  by (auto simp: entries_def intro: rev_image_eqI)


lemma match_one_shrinks:
  assumes ok: "index_ok s" and hn: "heads_nonempty s" and m1: "match_one s = Inr (s', t)"
  shows "shrinks s s'"
proof -
  from hn obtain bp b bq brest ap a aq arest where
    bs: "bids s = (bp, b # bq) # brest" and as: "asks s = (ap, a # aq) # arest"
    by (rule heads_shape)
  from ok have ne: "a \<noteq> b"
    by (auto simp: index_ok_def bs as dest: index_ok_on_heads_distinct)
  from m1 obtain m2 where
    fp: "fill_pair (mem s) b a (min (remainingQuantity (mem s b)) (remainingQuantity (mem s a))) = Inr m2"
    and mem': "mem s' = m2"
    and bids': "bids s' = (if IsFilled (m2 b) then (bp, bq) # brest else bids s)"
    and asks': "asks s' = (if IsFilled (m2 a) then (ap, aq) # arest else asks s)"
    and orders': "orders s' =
       (if IsFilled (m2 a) then orders_erase (oid (m2 a)) else (\<lambda>x. x))
       ((if IsFilled (m2 b) then orders_erase (oid (m2 b)) else (\<lambda>x. x)) (orders s))"
    by (rule match_one_Inr) (simp add: bs as pop_front_head_def)
  show ?thesis
  proof (rule shrinksI)
    show "same_static (mem s) (mem s')" unfolding mem' by (rule fill_pair_static [OF fp])
    show "remainingQuantity (mem s' x) \<le> remainingQuantity (mem s x)" for x
      unfolding mem' by (rule fill_pair_remaining_le [OF fp ne])
    show "mem s' x = mem s x" if "x \<notin> set (book_addrs s)" for x
    proof -
      from that have "x \<noteq> a" "x \<noteq> b" by (auto simp: book_addrs_def bs as)
      then show ?thesis unfolding mem' by (rule fill_pair_other [OF fp])
    qed
    show "entries (bids s') \<subseteq> entries (bids s)"
      by (cases "IsFilled (m2 b)") (auto simp: bids' bs entries_Cons)
    show "entries (asks s') \<subseteq> entries (asks s)"
      by (cases "IsFilled (m2 a)") (auto simp: asks' as entries_Cons)
    show "set (orders s') \<subseteq> set (orders s)"
      by (cases "IsFilled (m2 b)"; cases "IsFilled (m2 a)") (auto simp: orders' orders_erase_def)
    show "fst ` set (bids s') \<subseteq> fst ` set (bids s)"
      by (cases "IsFilled (m2 b)") (simp_all add: bids' bs)
    show "fst ` set (asks s') \<subseteq> fst ` set (asks s)"
      by (cases "IsFilled (m2 a)") (simp_all add: asks' as)
  qed
qed


lemma erase_empty_shrinks:
  assumes ok: "index_ok s1" and nb: "bids s1 \<noteq> []" and na: "asks s1 \<noteq> []"
  shows "shrinks s1 (erase_empty (fst (hd (bids s1))) (fst (hd (asks s1))) s1)"
proof -
  let ?s = "erase_empty (fst (hd (bids s1))) (fst (hd (asks s1))) s1"
  note f = erase_empty_fields [OF index_ok_keys [OF ok] nb na]
  have t: "set (tl (bids s1)) \<subseteq> set (bids s1)" "set (tl (asks s1)) \<subseteq> set (asks s1)"
    using nb na by (auto dest: list.set_sel(2))
  have sb: "set (bids ?s) \<subseteq> set (bids s1)"
    unfolding f using t(1) by (cases "snd (hd (bids s1)) = []") simp_all
  have sa: "set (asks ?s) \<subseteq> set (asks s1)"
    unfolding f using t(2) by (cases "snd (hd (asks s1)) = []") simp_all
  show ?thesis
  proof (rule shrinksI)
    show "same_static (mem s1) (mem ?s)" by (simp add: f)
    show "remainingQuantity (mem ?s x) \<le> remainingQuantity (mem s1 x)" for x by (simp add: f)
    show "mem ?s x = mem s1 x" for x by (simp add: f)
    show "entries (bids ?s) \<subseteq> entries (bids s1)" using sb unfolding entries_def by blast
    show "entries (asks ?s) \<subseteq> entries (asks s1)" using sa unfolding entries_def by blast
    show "set (orders ?s) \<subseteq> set (orders s1)" by (simp add: f)
    show "fst ` set (bids ?s) \<subseteq> fst ` set (bids s1)" using sb by (rule image_mono)
    show "fst ` set (asks ?s) \<subseteq> fst ` set (asks s1)" using sa by (rule image_mono)
  qed
qed


lemma map_erase_keys_set: "fst ` set (map_erase p m) = fst ` set m - {p}"
proof -
  have "set (map fst (map_erase p m)) = set (map fst m) - {p}"
    unfolding map_erase_keys by auto
  then show ?thesis by (simp only: set_map)
qed

lemma map_assign_keys_set: "fst ` set (map_assign p c m) = fst ` set m"
proof -
  have "set (map fst (map_assign p c m)) = set (map fst m)"
    unfolding map_assign_keys ..
  then show ?thesis by (simp only: set_map)
qed

lemma level_erased_keys: "fst ` set (level_erased p a c m) \<subseteq> fst ` set m"
  by (cases "remove1 a c = []")
     (simp_all add: level_erased_def map_erase_keys_set map_assign_keys_set)

lemma CancelOrderInternal_wf_parts:
  assumes ok: "index_ok s"
  shows "\<exists>s'. CancelOrderInternal i s = Inr s' \<and> index_ok s' \<and> shrinks s s' \<and>
           mem s' = mem s \<and>
           (levels_nonempty (bids s) \<longrightarrow> levels_nonempty (bids s')) \<and>
           (levels_nonempty (asks s) \<longrightarrow> levels_nonempty (asks s')) \<and>
           (\<forall>a. map_of (orders s) i = Some a \<longrightarrow> a \<notin> set (book_addrs s'))"
proof (cases "map_of (orders s) i")
  case None
  with ok show ?thesis by (simp add: CancelOrderInternal_unknown)
next
  case (Some a)
  from CancelOrderInternal_index_ok [OF ok, of i] obtain s' where
    c: "CancelOrderInternal i s = Inr s'" and ok': "index_ok s'" and m: "mem s' = mem s"
    by blast
  from ok have ok0: "index_ok_on (mem s) (bids s) (asks s) (orders s)" by (simp add: index_ok_def)
  from ok have d: "distinct (book_addrs s)" by (simp add: index_ok_def index_ok_on_def book_addrs_def)
  from ok Some have "shrinks s s' \<and>
           (levels_nonempty (bids s) \<longrightarrow> levels_nonempty (bids s')) \<and>
           (levels_nonempty (asks s) \<longrightarrow> levels_nonempty (asks s')) \<and> a \<notin> set (book_addrs s')"
  proof (cases rule: CancelOrderInternal_known)
    case (1 c)
    from 1(4) c have s': "s' = s\<lparr>orders := orders_erase i (orders s),
        asks := level_erased (oprice (mem s a)) a c (asks s),
        ldata := OnOrderCancelled (mem s a) (ldata s)\<rparr>" by simp
    have da: "distinct (map fst (asks s))" by (rule index_ok_keys(2) [OF ok])
    have "mset (a # queue_addrs (bids s) @ queue_addrs (level_erased (oprice (mem s a)) a c (asks s)))
          = mset (book_addrs s)"
      using level_erased_mset [OF da 1(2,3)] by (simp add: book_addrs_def)
    from mset_eq_imp_distinct_iff [OF this] d
    have "a \<notin> set (book_addrs s')" by (simp add: s' book_addrs_def)
    moreover have "shrinks s s'"
    proof (rule shrinksI)
      show "entries (asks s') \<subseteq> entries (asks s)"
        using level_erased_entries [OF 1(2), of a] by (simp add: s')
      show "fst ` set (asks s') \<subseteq> fst ` set (asks s)"
        using level_erased_keys by (simp add: s')
      show "set (orders s') \<subseteq> set (orders s)" by (auto simp: s' orders_erase_def)
    qed (simp_all add: s')
    ultimately show ?thesis by (simp add: s' level_erased_nonempty)
  next
    case (2 c)
    from 2(4) c have s': "s' = s\<lparr>orders := orders_erase i (orders s),
        bids := level_erased (oprice (mem s a)) a c (bids s),
        ldata := OnOrderCancelled (mem s a) (ldata s)\<rparr>" by simp
    have da: "distinct (map fst (bids s))" by (rule index_ok_keys(1) [OF ok])
    have "mset (a # queue_addrs (level_erased (oprice (mem s a)) a c (bids s)) @ queue_addrs (asks s))
          = mset (book_addrs s)"
      using level_erased_mset [OF da 2(2,3)] by (simp add: book_addrs_def)
    from mset_eq_imp_distinct_iff [OF this] d
    have "a \<notin> set (book_addrs s')" by (simp add: s' book_addrs_def)
    moreover have "shrinks s s'"
    proof (rule shrinksI)
      show "entries (bids s') \<subseteq> entries (bids s)"
        using level_erased_entries [OF 2(2), of a] by (simp add: s')
      show "fst ` set (bids s') \<subseteq> fst ` set (bids s)"
        using level_erased_keys by (simp add: s')
      show "set (orders s') \<subseteq> set (orders s)" by (auto simp: s' orders_erase_def)
    qed (simp_all add: s')
    ultimately show ?thesis by (simp add: s' level_erased_nonempty)
  qed
  with c ok' m Some show ?thesis by simp
qed


subsection \<open>The matching loop on a consistent book\<close>

lemma levels_nonempty_simps [simp]:
  "levels_nonempty [] = True"
  "levels_nonempty (kv # m) = (snd kv \<noteq> [] \<and> levels_nonempty m)"
  by (simp_all add: levels_nonempty_def)

lemma levels_nonempty_tl: "levels_nonempty m \<Longrightarrow> levels_nonempty (tl m)"
  by (cases m) simp_all

lemma match_level_props:
  assumes ok: "index_ok s"
  shows "\<exists>s1 trades1. match_level s trades = Inr (s1, trades1) \<and> index_ok s1 \<and> shrinks s s1"
proof -
  from match_level_ok [OF ok] obtain s1 trades1 where
    ml: "match_level s trades = Inr (s1, trades1)" by blast
  have "(index_ok s1 \<and> shrinks s s1) \<and> \<not> heads_nonempty s1"
  proof (rule match_level_invariant [OF ml, where I = "\<lambda>x ts. index_ok x \<and> shrinks s x"])
    show "index_ok s \<and> shrinks s s" using ok by simp
  next
    fix x ts x1 t
    assume I: "index_ok x \<and> shrinks s x" and hn: "heads_nonempty x"
      and m1: "match_one x = Inr (x1, t)"
    from I have okx: "index_ok x" and sh: "shrinks s x" by simp_all
    have "index_ok x1" by (rule match_one_index_ok [OF okx hn m1])
    moreover have "shrinks s x1"
      by (rule shrinks_trans [OF sh match_one_shrinks [OF okx hn m1]])
    ultimately show "index_ok x1 \<and> shrinks s x1" ..
  qed
  with ml show ?thesis by blast
qed

text \<open>One pass of the outer loop: the inner loop, then the erasure of emptied levels.\<close>

lemma outer_pass_props:
  assumes ok: "index_ok s" and nb: "bids s \<noteq> []" and na: "asks s \<noteq> []"
    and lb: "levels_nonempty (bids s)" and la: "levels_nonempty (asks s)"
    and ml: "match_level s trades = Inr (s1, trades1)"
  shows "index_ok (erase_empty (fst (hd (bids s))) (fst (hd (asks s))) s1)"
    and "shrinks s (erase_empty (fst (hd (bids s))) (fst (hd (asks s))) s1)"
    and "levels_nonempty (bids (erase_empty (fst (hd (bids s))) (fst (hd (asks s))) s1))"
    and "levels_nonempty (asks (erase_empty (fst (hd (bids s))) (fst (hd (asks s))) s1))"
proof -
  let ?e = "erase_empty (fst (hd (bids s))) (fst (hd (asks s))) s1"
  from match_level_shape [OF ml nb na] have
    sh: "bids s1 \<noteq> []" "asks s1 \<noteq> []" "fst (hd (bids s1)) = fst (hd (bids s))"
      "fst (hd (asks s1)) = fst (hd (asks s))" "tl (bids s1) = tl (bids s)"
      "tl (asks s1) = tl (asks s)"
    by simp_all
  from match_level_props [OF ok, of trades] ml have ok1: "index_ok s1" and s1: "shrinks s s1"
    by simp_all
  have e: "?e = erase_empty (fst (hd (bids s1))) (fst (hd (asks s1))) s1"
    by (simp add: sh)
  show "index_ok ?e" unfolding e by (rule erase_empty_index_ok [OF ok1 sh(1,2)])
  show "shrinks s ?e"
    unfolding e by (rule shrinks_trans [OF s1 erase_empty_shrinks [OF ok1 sh(1,2)]])
  note f = erase_empty_fields [OF index_ok_keys [OF ok1] sh(1,2)]
  have tb: "levels_nonempty (tl (bids s1))" unfolding sh(5) by (rule levels_nonempty_tl [OF lb])
  have ta: "levels_nonempty (tl (asks s1))" unfolding sh(6) by (rule levels_nonempty_tl [OF la])
  show "levels_nonempty (bids ?e)"
    unfolding e f using tb sh(1) by (cases "bids s1") auto
  show "levels_nonempty (asks ?e)"
    unfolding e f using ta sh(2) by (cases "asks s1") auto
qed

lemma sorted_gt_hd_max:
  "sorted_wrt (>) (map fst (m :: levels)) \<Longrightarrow> k \<in> fst ` set m \<Longrightarrow> k \<le> fst (hd m)"
  by (cases m) force+

lemma sorted_lt_hd_min:
  "sorted_wrt (<) (map fst (m :: levels)) \<Longrightarrow> k \<in> fst ` set m \<Longrightarrow> fst (hd m) \<le> k"
  by (cases m) force+

lemma uncrossed_heads:
  assumes ok: "index_ok s"
    and h: "bids s = [] \<or> asks s = [] \<or> fst (hd (bids s)) < fst (hd (asks s))"
  shows "uncrossed s"
  unfolding uncrossed_def
proof (intro ballI)
  fix bp ap assume bp: "bp \<in> fst ` set (bids s)" and ap: "ap \<in> fst ` set (asks s)"
  from ok have sb: "sorted_wrt (>) (map fst (bids s))" and sa: "sorted_wrt (<) (map fst (asks s))"
    by (simp_all add: index_ok_def index_ok_on_def)
  from bp ap have "bids s \<noteq> []" "asks s \<noteq> []" by auto
  with h have "fst (hd (bids s)) < fst (hd (asks s))" by simp
  with sorted_gt_hd_max [OF sb bp] sorted_lt_hd_min [OF sa ap] show "bp < ap" by simp
qed

text \<open>
  The matching loop on a consistent book returns, and leaves a consistent, uncrossed book
  with no empty level. A property \<open>K\<close> of the book and the trade list that each pass of
  the inner loop and each erasure of emptied levels preserves holds at the end.
\<close>

lemma MatchOrders_loop_inv:
  assumes ok: "index_ok s" and lb: "levels_nonempty (bids s)" and la: "levels_nonempty (asks s)"
    and K: "K s trades"
    and step: "\<And>x ts x1 t. index_ok x \<Longrightarrow> heads_nonempty x \<Longrightarrow> K x ts \<Longrightarrow>
       match_one x = Inr (x1, t) \<Longrightarrow> K x1 (ts @ [t])"
    and erase: "\<And>x ts. index_ok x \<Longrightarrow> bids x \<noteq> [] \<Longrightarrow> asks x \<noteq> [] \<Longrightarrow> \<not> heads_nonempty x \<Longrightarrow>
       K x ts \<Longrightarrow> K (erase_empty (fst (hd (bids x))) (fst (hd (asks x))) x) ts"
  shows "\<exists>s' trades'. MatchOrders_loop s trades = Inr (s', trades') \<and> K s' trades' \<and>
           index_ok s' \<and> shrinks s s' \<and> levels_nonempty (bids s') \<and>
           levels_nonempty (asks s') \<and> uncrossed s'"
proof -
  from MatchOrders_loop_ok [OF ok] obtain s' trades' where
    l: "MatchOrders_loop s trades = Inr (s', trades')" by blast
  let ?I = "\<lambda>x ts. K x ts \<and> index_ok x \<and> shrinks s x \<and>
             levels_nonempty (bids x) \<and> levels_nonempty (asks x)"
  have "?I s' trades' \<and> (bids s' = [] \<or> asks s' = [] \<or> fst (hd (bids s')) < fst (hd (asks s')))"
  proof (rule MatchOrders_loop_invariant [OF l, where I = ?I])
    show "?I s trades" using ok lb la K by simp
  next
    fix x ts x1 ts1
    assume I: "?I x ts" and nb: "bids x \<noteq> []" and na: "asks x \<noteq> []"
      and ml: "match_level x ts = Inr (x1, ts1)"
    from I have Kx: "K x ts" and okx: "index_ok x" and sh: "shrinks s x"
      and lbx: "levels_nonempty (bids x)" and lax: "levels_nonempty (asks x)" by simp_all
    note p = outer_pass_props [OF okx nb na lbx lax ml]
    have in1: "(K x1 ts1 \<and> index_ok x1) \<and> \<not> heads_nonempty x1"
    proof (rule match_level_invariant [OF ml, where I = "\<lambda>y ts. K y ts \<and> index_ok y"])
      show "K x ts \<and> index_ok x" using Kx okx ..
    next
      fix y ts y1 t
      assume "K y ts \<and> index_ok y" and hn: "heads_nonempty y" and m1: "match_one y = Inr (y1, t)"
      then have "K y ts" "index_ok y" by simp_all
      from step [OF this(2) hn this(1) m1] match_one_index_ok [OF this(2) hn m1]
      show "K y1 (ts @ [t]) \<and> index_ok y1" ..
    qed
    from match_level_shape [OF ml nb na] have
      shp: "bids x1 \<noteq> []" "asks x1 \<noteq> []" "fst (hd (bids x1)) = fst (hd (bids x))"
        "fst (hd (asks x1)) = fst (hd (asks x))"
      by simp_all
    from in1 have "K x1 ts1" "index_ok x1" "\<not> heads_nonempty x1" by simp_all
    from erase [OF this(2) shp(1,2) this(3) this(1)]
    have "K (erase_empty (fst (hd (bids x))) (fst (hd (asks x))) x1) ts1"
      by (simp add: shp)
    with p(1) shrinks_trans [OF sh p(2)] p(3) p(4)
    show "?I (erase_empty (fst (hd (bids x))) (fst (hd (asks x))) x1) ts1" by simp
  qed
  then have "?I s' trades'" and
    h: "bids s' = [] \<or> asks s' = [] \<or> fst (hd (bids s')) < fst (hd (asks s'))" by simp_all
  moreover from this have "uncrossed s'" by (simp add: uncrossed_heads)
  ultimately show ?thesis using l by blast
qed

lemma MatchOrders_loop_props:
  assumes ok: "index_ok s" and lb: "levels_nonempty (bids s)" and la: "levels_nonempty (asks s)"
  shows "\<exists>s' trades'. MatchOrders_loop s trades = Inr (s', trades') \<and> index_ok s' \<and>
           shrinks s s' \<and> levels_nonempty (bids s') \<and> levels_nonempty (asks s') \<and> uncrossed s'"
  using MatchOrders_loop_inv [OF ok lb la, where K = "\<lambda>x ts. True" and trades = trades]
  by simp

lemma cancel_front_FillAndKill_props:
  assumes ok: "index_ok s"
  shows "\<exists>s'. cancel_front_FillAndKill m s = Inr s' \<and> index_ok s' \<and> shrinks s s' \<and>
           mem s' = mem s \<and>
           (levels_nonempty (bids s) \<longrightarrow> levels_nonempty (bids s')) \<and>
           (levels_nonempty (asks s) \<longrightarrow> levels_nonempty (asks s'))"
proof (cases "m \<noteq> [] \<and> snd (hd m) \<noteq> [] \<and> otype (mem s (hd (snd (hd m)))) = FillAndKill")
  case True
  with CancelOrderInternal_wf_parts [OF ok, of "oid (mem s (hd (snd (hd m))))"]
  show ?thesis by (auto simp: cancel_front_FillAndKill_def)
next
  case False
  then have "cancel_front_FillAndKill m s = Inr s"
    by (auto simp: cancel_front_FillAndKill_def)
  with ok show ?thesis by simp
qed

lemma MatchOrders_props:
  assumes ok: "index_ok s" and lb: "levels_nonempty (bids s)" and la: "levels_nonempty (asks s)"
  shows "\<exists>trades s'. MatchOrders s = Inr (trades, s') \<and> index_ok s' \<and>
           shrinks s s' \<and> levels_nonempty (bids s') \<and> levels_nonempty (asks s') \<and> uncrossed s'"
proof -
  from MatchOrders_loop_props [OF ok lb la, of "[]"] obtain s1 trades where
    1: "MatchOrders_loop s [] = Inr (s1, trades)" "index_ok s1" "shrinks s s1"
       "levels_nonempty (bids s1)" "levels_nonempty (asks s1)" "uncrossed s1"
    by blast
  from cancel_front_FillAndKill_props [OF 1(2), of "bids s1"] 1(4,5) obtain s2 where
    2: "cancel_front_FillAndKill (bids s1) s1 = Inr s2" "index_ok s2" "shrinks s1 s2"
       "levels_nonempty (bids s2)" "levels_nonempty (asks s2)"
    by blast
  from cancel_front_FillAndKill_props [OF 2(2), of "asks s2"] 2(4,5) obtain s3 where
    3: "cancel_front_FillAndKill (asks s2) s2 = Inr s3" "index_ok s3" "shrinks s2 s3"
       "levels_nonempty (bids s3)" "levels_nonempty (asks s3)"
    by blast
  have m: "MatchOrders s = Inr (trades, s3)"
    by (simp add: MatchOrders_def 1(1) 2(1) 3(1))
  have sh13: "shrinks s1 s3" by (rule shrinks_trans [OF 2(3) 3(3)])
  have sh: "shrinks s s3" by (rule shrinks_trans [OF 1(3) sh13])
  have "uncrossed s3" by (rule shrinks_uncrossed [OF sh13 1(6)])
  with m 3(2,4,5) sh show ?thesis by blast
qed


subsection \<open>Insertion\<close>

lemma index_ok_on_mem_cong:
  assumes ok: "index_ok_on m bs as os"
    and eq: "\<And>x. x \<in> set (queue_addrs bs @ queue_addrs as) \<Longrightarrow> m' x = m x"
  shows "index_ok_on m' bs as os"
proof (rule index_ok_on_intro)
  from ok show "sorted_wrt (>) (map fst bs)" "sorted_wrt (<) (map fst as)"
    "distinct (queue_addrs bs @ queue_addrs as)" "distinct (map fst os)"
    by (simp_all add: index_ok_on_def)
  from ok have lb: "level_all (\<lambda>p a. oside (m a) = Buy \<and> oprice (m a) = p) bs"
    and la: "level_all (\<lambda>p a. oside (m a) = Sell \<and> oprice (m a) = p) as"
    by (simp_all add: index_ok_on_def)
  show "level_all (\<lambda>p a. oside (m' a) = Buy \<and> oprice (m' a) = p) bs"
    by (rule level_all_mono [OF lb]) (simp add: eq)
  show "level_all (\<lambda>p a. oside (m' a) = Sell \<and> oprice (m' a) = p) as"
    by (rule level_all_mono [OF la]) (simp add: eq)
  from ok have "set os = (\<lambda>a. (oid (m a), a)) ` set (queue_addrs bs @ queue_addrs as)"
    by (simp add: index_ok_on_def)
  also have "\<dots> = (\<lambda>a. (oid (m' a), a)) ` set (queue_addrs bs @ queue_addrs as)"
    by (rule image_cong) (simp_all add: eq)
  finally show "set os = (\<lambda>a. (oid (m' a), a)) ` set (queue_addrs bs @ queue_addrs as)" .
qed

lemma index_ok_in_book:
  assumes ok: "index_ok s" and a: "a \<in> set (book_addrs s)"
  shows "map_of (orders s) (oid (mem s a)) = Some a"
proof -
  from ok have d: "distinct (map fst (orders s))"
    and g: "set (orders s) = (\<lambda>a. (oid (mem s a), a)) ` set (book_addrs s)"
    by (simp_all add: index_ok_def index_ok_on_def book_addrs_def)
  from a have "(oid (mem s a), a) \<in> (\<lambda>a. (oid (mem s a), a)) ` set (book_addrs s)"
    by (rule imageI)
  then have "(oid (mem s a), a) \<in> set (orders s)" unfolding g .
  with d show ?thesis by (rule map_of_is_SomeI)
qed

lemma index_ok_orders_addrs:
  assumes ok: "index_ok s"
  shows "snd ` set (orders s) = set (book_addrs s)"
proof -
  from ok have g: "set (orders s) = (\<lambda>a. (oid (mem s a), a)) ` set (book_addrs s)"
    by (simp add: index_ok_def index_ok_on_def book_addrs_def)
  show ?thesis unfolding g by (simp add: image_image)
qed

lemma not_live_not_in_book:
  assumes ok: "index_ok s" and n: "\<not> orders_contains (orders s) (oid (mem s a))"
  shows "a \<notin> set (book_addrs s)"
  using index_ok_in_book [OF ok, of a] n by (auto simp: orders_contains_def)

lemma insert_order_fields:
  "mem (insert_order a s) = mem s"
  "oside (mem s a) = Buy \<Longrightarrow>
     bids (insert_order a s) = map_push_back (\<lambda>x y. x > y) (oprice (mem s a)) a (bids s) \<and>
     asks (insert_order a s) = asks s"
  "oside (mem s a) = Sell \<Longrightarrow>
     asks (insert_order a s) = map_push_back (\<lambda>x y. x < y) (oprice (mem s a)) a (asks s) \<and>
     bids (insert_order a s) = bids s"
  "\<not> orders_contains (orders s) (oid (mem s a)) \<Longrightarrow>
     orders (insert_order a s) = orders s @ [(oid (mem s a), a)]"
  by (simp_all add: insert_order_def Let_def orders_insert_def)

lemma insert_order_addrs:
  "set (book_addrs (insert_order a s)) = insert a (set (book_addrs s))"
  by (cases "oside (mem s a)")
     (simp_all add: book_addrs_def insert_order_fields map_push_back_set)

lemma insert_order_index_ok:
  assumes ok: "index_ok s" and n: "\<not> orders_contains (orders s) (oid (mem s a))"
  shows "index_ok (insert_order a s)"
proof -
  let ?s = "insert_order a s"
  from ok have ok0: "index_ok_on (mem s) (bids s) (asks s) (orders s)" by (simp add: index_ok_def)
  have na: "a \<notin> set (book_addrs s)" by (rule not_live_not_in_book [OF ok n])
  from ok0 have d0: "distinct (book_addrs s)" by (simp add: index_ok_on_def book_addrs_def)
  have ms: "mset (book_addrs ?s) = mset (a # book_addrs s)"
    by (cases "oside (mem s a)")
       (simp_all add: book_addrs_def insert_order_fields map_push_back_mset)
  have "index_ok_on (mem s) (bids ?s) (asks ?s) (orders ?s)"
  proof (rule index_ok_on_intro)
    show "sorted_wrt (>) (map fst (bids ?s))"
      using ok0 by (cases "oside (mem s a)")
        (simp_all add: insert_order_fields index_ok_on_def map_push_back_sorted_gt)
    show "sorted_wrt (<) (map fst (asks ?s))"
      using ok0 by (cases "oside (mem s a)")
        (simp_all add: insert_order_fields index_ok_on_def map_push_back_sorted_lt)
    from mset_eq_imp_distinct_iff [OF ms] d0 na
    show "distinct (queue_addrs (bids ?s) @ queue_addrs (asks ?s))"
      by (simp add: book_addrs_def)
    from n have "oid (mem s a) \<notin> fst ` set (orders s)"
      by (simp add: orders_contains_def map_of_eq_None_iff)
    with ok0 show "distinct (map fst (orders ?s))"
      by (simp add: insert_order_fields(4) [OF n] index_ok_on_def)
    show "level_all (\<lambda>p x. oside (mem s x) = Buy \<and> oprice (mem s x) = p) (bids ?s)"
      using ok0 by (cases "oside (mem s a)")
        (simp_all add: insert_order_fields index_ok_on_def map_push_back_level_all)
    show "level_all (\<lambda>p x. oside (mem s x) = Sell \<and> oprice (mem s x) = p) (asks ?s)"
      using ok0 by (cases "oside (mem s a)")
        (simp_all add: insert_order_fields index_ok_on_def map_push_back_level_all)
    from ok0 have "set (orders s) = (\<lambda>a. (oid (mem s a), a)) ` set (book_addrs s)"
      by (simp add: index_ok_on_def book_addrs_def)
    then have "set (orders ?s) = (\<lambda>a. (oid (mem s a), a)) ` set (book_addrs ?s)"
      by (simp add: insert_order_fields(4) [OF n] insert_order_addrs)
    then show "set (orders ?s) =
        (\<lambda>a. (oid (mem s a), a)) ` set (queue_addrs (bids ?s) @ queue_addrs (asks ?s))"
      by (simp only: book_addrs_def)
  qed
  then show ?thesis by (simp add: index_ok_def insert_order_fields(1))
qed

lemma levels_nonempty_push:
  "levels_nonempty m \<Longrightarrow> levels_nonempty (map_push_back cmp p a m)"
  unfolding levels_nonempty_def by (rule map_push_back_nonempty)

lemma insert_order_nonempty:
  assumes "levels_nonempty (bids s)" and "levels_nonempty (asks s)"
  shows "levels_nonempty (bids (insert_order a s))" and "levels_nonempty (asks (insert_order a s))"
  using assms
  by (cases "oside (mem s a)"; simp add: insert_order_fields levels_nonempty_push)+


subsection \<open>The steps of AddOrder\<close>

lemma convert_market_Some:
  assumes "convert_market a s = Some s1"
  shows "bids s1 = bids s" and "asks s1 = asks s" and "orders s1 = orders s"
    and "ldata s1 = ldata s"
    and "x \<noteq> a \<Longrightarrow> mem s1 x = mem s x"
    and "oid (mem s1 a) = oid (mem s a)" and "oside (mem s1 a) = oside (mem s a)"
    and "initialQuantity (mem s1 a) = initialQuantity (mem s a)"
    and "remainingQuantity (mem s1 a) = remainingQuantity (mem s a)"
    and "otype (mem s1 a) \<noteq> Market"
    and "otype (mem s a) \<noteq> Market \<Longrightarrow> s1 = s"
  using assms
  by (auto simp: convert_market_def ToGoodTillCancel_def split: if_splits)

lemma convert_market_None:
  "convert_market a s = None \<longleftrightarrow>
     otype (mem s a) = Market \<and>
     (if oside (mem s a) = Buy then asks s = [] else bids s = [])"
  by (cases "oside (mem s a)") (auto simp: convert_market_def)

text \<open>The paths through \<open>AddOrder\<close>.\<close>

lemma AddOrder_cases [consumes 0, case_names duplicate no_liquidity no_cross not_fillable accepted]:
  obtains
    "orders_contains (orders s) (oid (mem s a))" "AddOrder a s = Inr ([], s)"
  | "\<not> orders_contains (orders s) (oid (mem s a))" "otype (mem s a) = Market"
    "if oside (mem s a) = Buy then asks s = [] else bids s = []"
    "AddOrder a s = Inr ([], s)"
  | "\<not> orders_contains (orders s) (oid (mem s a))" "otype (mem s a) = FillAndKill"
    "\<not> CanMatch s (oside (mem s a)) (oprice (mem s a))" "AddOrder a s = Inr ([], s)"
  | "\<not> orders_contains (orders s) (oid (mem s a))" "otype (mem s a) = FillOrKill"
    "\<not> CanFullyFill s (oside (mem s a)) (oprice (mem s a)) (initialQuantity (mem s a))"
    "AddOrder a s = Inr ([], s)"
  | s1 where "\<not> orders_contains (orders s) (oid (mem s a))" "convert_market a s = Some s1"
    "otype (mem s a) = FillAndKill \<longrightarrow> CanMatch s (oside (mem s a)) (oprice (mem s a))"
    "otype (mem s a) = FillOrKill \<longrightarrow>
       CanFullyFill s (oside (mem s a)) (oprice (mem s a)) (initialQuantity (mem s a))"
    "AddOrder a s = MatchOrders (insert_order a s1)"
proof (cases "orders_contains (orders s) (oid (mem s a))")
  case True
  then show ?thesis using that(1) by (simp add: AddOrder_def)
next
  case dup: False
  show ?thesis
  proof (cases "convert_market a s")
    case None
    from dup None have r: "AddOrder a s = Inr ([], s)" by (simp add: AddOrder_def)
    from None have m: "otype (mem s a) = Market"
      "if oside (mem s a) = Buy then asks s = [] else bids s = []"
      unfolding convert_market_None by simp_all
    show ?thesis by (rule that(2) [OF dup m r])
  next
    case (Some s1)
    show ?thesis
    proof (cases "otype (mem s a) = Market")
      case True
      with convert_market_Some(10) [OF Some]
      have t: "otype (mem s1 a) \<noteq> Market" "otype (mem s1 a) = GoodTillCancel"
        using Some by (auto simp: convert_market_def ToGoodTillCancel_def split: if_splits)
      from dup Some t True show ?thesis
        using that(5) [of s1] by (simp add: AddOrder_def Let_def)
    next
      case False
      with convert_market_Some(11) [OF Some] have e: "s1 = s" by simp
      from dup Some e show ?thesis
        using that(3) that(4) that(5) [of s1]
        by (cases "otype (mem s a) = FillAndKill \<and>
                   \<not> CanMatch s (oside (mem s a)) (oprice (mem s a))";
            cases "otype (mem s a) = FillOrKill \<and>
                   \<not> CanFullyFill s (oside (mem s a)) (oprice (mem s a))
                        (initialQuantity (mem s a))")
           (auto simp: AddOrder_def Let_def)
    qed
  qed
qed

lemma wf_mem_cong:
  assumes w: "well_formed s" and b: "bids s' = bids s" and a: "asks s' = asks s"
    and o: "orders s' = orders s"
    and m: "\<And>x. x \<in> set (book_addrs s) \<Longrightarrow> mem s' x = mem s x"
  shows "well_formed s'"
proof -
  have ba: "book_addrs s' = book_addrs s" by (simp add: book_addrs_def b a)
  from w have "index_ok_on (mem s) (bids s) (asks s) (orders s)" by (simp add: well_formed_def index_ok_def)
  then have "index_ok_on (mem s') (bids s) (asks s) (orders s)"
    by (rule index_ok_on_mem_cong) (simp add: m book_addrs_def)
  then have 1: "index_ok s'" by (simp add: index_ok_def b a o)
  from w have 2: "levels_nonempty (bids s')" "levels_nonempty (asks s')" "uncrossed s'"
    by (simp_all add: well_formed_def b a uncrossed_def)
  from w have 3: "resting_ok s'" "no_FillAndKill s'"
    by (simp_all add: well_formed_def resting_ok_def no_FillAndKill_def ba m)
  from 1 2 3 show ?thesis by (simp add: well_formed_def)
qed

lemma map_push_back_front:
  assumes "m = [] \<or> (fst (hd m) \<noteq> p \<and> cmp p (fst (hd m)))"
  shows "map_push_back cmp p a m = (p, [a]) # m"
  using assms by (cases m) auto

subsection \<open>A FillAndKill order in the matching loop\<close>

text \<open>The order at \<open>a\<close> is alone at the front of the best bid level or of the best ask
  level, or it is no longer in the book.\<close>

definition front_or_gone :: "addr \<Rightarrow> OrderBook \<Rightarrow> bool" where
  "front_or_gone a x =
     (a \<notin> set (book_addrs x) \<or> (\<exists>p rest. bids x = (p, [a]) # rest) \<or>
      (\<exists>p rest. asks x = (p, [a]) # rest))"

lemma match_one_front_or_gone:
  assumes ok: "index_ok x" and hn: "heads_nonempty x" and J: "front_or_gone a x"
    and m1: "match_one x = Inr (x1, t)"
  shows "front_or_gone a x1"
proof -
  note sh = match_one_shrinks [OF ok hn m1]
  from ok have d: "distinct (queue_addrs (bids x) @ queue_addrs (asks x))"
    by (simp add: index_ok_def index_ok_on_def)
  have sub: "set (queue_addrs (bids x1)) \<subseteq> set (queue_addrs (bids x))"
    "set (queue_addrs (asks x1)) \<subseteq> set (queue_addrs (asks x))"
    unfolding entries_addrs [symmetric]
    by (rule image_mono [OF shrinksD(4) [OF sh]], rule image_mono [OF shrinksD(5) [OF sh]])
  from J consider "a \<notin> set (book_addrs x)" | p rest where "bids x = (p, [a]) # rest"
    | p rest where "asks x = (p, [a]) # rest"
    unfolding front_or_gone_def by blast
  then show ?thesis
  proof cases
    case 1
    with shrinks_addrs [OF sh] show ?thesis unfolding front_or_gone_def by blast
  next
    case 2
    from m1 have b: "bids x1 = (if IsFilled (mem x1 a) then (p, []) # rest else bids x)"
      by (rule match_one_Inr) (simp add: 2 pop_front_head_def)
    show ?thesis
    proof (cases "IsFilled (mem x1 a)")
      case True
      from d have "a \<notin> set (queue_addrs rest)" "a \<notin> set (queue_addrs (asks x))"
        by (simp_all add: 2)
      with sub(2) True b have "a \<notin> set (book_addrs x1)" by (auto simp: book_addrs_def)
      then show ?thesis by (simp add: front_or_gone_def)
    next
      case False
      with b 2 show ?thesis by (simp add: front_or_gone_def)
    qed
  next
    case 3
    from m1 have b: "asks x1 = (if IsFilled (mem x1 a) then (p, []) # rest else asks x)"
      by (rule match_one_Inr) (simp add: 3 pop_front_head_def)
    show ?thesis
    proof (cases "IsFilled (mem x1 a)")
      case True
      from d have "a \<notin> set (queue_addrs rest)" "a \<notin> set (queue_addrs (bids x))"
        by (simp_all add: 3)
      with sub(1) True b have "a \<notin> set (book_addrs x1)" by (auto simp: book_addrs_def)
      then show ?thesis by (simp add: front_or_gone_def)
    next
      case False
      with b 3 show ?thesis by (simp add: front_or_gone_def)
    qed
  qed
qed

lemma erase_empty_front_or_gone:
  assumes ok: "index_ok x" and nb: "bids x \<noteq> []" and na: "asks x \<noteq> []"
    and J: "front_or_gone a x"
  shows "front_or_gone a (erase_empty (fst (hd (bids x))) (fst (hd (asks x))) x)"
proof -
  let ?e = "erase_empty (fst (hd (bids x))) (fst (hd (asks x))) x"
  note f = erase_empty_fields [OF index_ok_keys [OF ok] nb na]
  note sh = erase_empty_shrinks [OF ok nb na]
  from J consider "a \<notin> set (book_addrs x)" | p rest where "bids x = (p, [a]) # rest"
    | p rest where "asks x = (p, [a]) # rest"
    unfolding front_or_gone_def by blast
  then show ?thesis
  proof cases
    case 1
    with shrinks_addrs [OF sh] show ?thesis unfolding front_or_gone_def by blast
  next
    case 2
    then have "bids ?e = (p, [a]) # rest" unfolding f by simp
    then show ?thesis unfolding front_or_gone_def by blast
  next
    case 3
    then have "asks ?e = (p, [a]) # rest" unfolding f by simp
    then show ?thesis unfolding front_or_gone_def by blast
  qed
qed


lemma MatchOrders_loop_front_or_gone:
  assumes ok: "index_ok s" and lb: "levels_nonempty (bids s)" and la: "levels_nonempty (asks s)"
    and J: "front_or_gone a s"
  shows "\<exists>s' trades'. MatchOrders_loop s trades = Inr (s', trades') \<and> front_or_gone a s' \<and>
           index_ok s' \<and> shrinks s s' \<and> levels_nonempty (bids s') \<and>
           levels_nonempty (asks s') \<and> uncrossed s'"
proof (rule MatchOrders_loop_inv [OF ok lb la, where K = "\<lambda>x ts. front_or_gone a x"])
  show "front_or_gone a s" by (rule J)
next
  fix x ts x1 t
  assume "index_ok x" "heads_nonempty x" "front_or_gone a x" "match_one x = Inr (x1, t)"
  then show "front_or_gone a x1" by (rule match_one_front_or_gone)
next
  fix x ts
  assume "index_ok x" "bids x \<noteq> []" "asks x \<noteq> []" "front_or_gone a x"
  then show "front_or_gone a (erase_empty (fst (hd (bids x))) (fst (hd (asks x))) x)"
    by (rule erase_empty_front_or_gone)
qed

text \<open>The two cancellations after the loops remove a FillAndKill order that is alone at
  the front of a best level, when no other resting order is FillAndKill.\<close>

lemma cancel_fronts_gone:
  assumes ok: "index_ok s1" and J: "front_or_gone a s1"
    and t: "otype (mem s1 a) = FillAndKill"
    and others: "\<And>x. x \<in> set (book_addrs s1) \<Longrightarrow> x \<noteq> a \<Longrightarrow> otype (mem s1 x) \<noteq> FillAndKill"
    and c1: "cancel_front_FillAndKill (bids s1) s1 = Inr s2"
    and c2: "cancel_front_FillAndKill (asks s2) s2 = Inr s3"
  shows "a \<notin> set (book_addrs s3)"
proof -
  from cancel_front_FillAndKill_props [OF ok, of "bids s1"] c1
  have ok2: "index_ok s2" and sh12: "shrinks s1 s2" and m2: "mem s2 = mem s1" by auto
  from cancel_front_FillAndKill_props [OF ok2, of "asks s2"] c2
  have sh23: "shrinks s2 s3" by auto
  from J consider "a \<notin> set (book_addrs s1)" | p rest where "bids s1 = (p, [a]) # rest"
    | p rest where "asks s1 = (p, [a]) # rest" "a \<in> set (book_addrs s1)"
    unfolding front_or_gone_def by blast
  then show ?thesis
  proof cases
    case 1
    with shrinks_addrs [OF sh12] shrinks_addrs [OF sh23] show ?thesis by blast
  next
    case 2
    then have "a \<in> set (book_addrs s1)" by (simp add: book_addrs_def)
    from index_ok_in_book [OF ok this] have l: "map_of (orders s1) (oid (mem s1 a)) = Some a" .
    from c1 have "CancelOrderInternal (oid (mem s1 a)) s1 = Inr s2"
      by (simp add: cancel_front_FillAndKill_def 2 t)
    with CancelOrderInternal_wf_parts [OF ok, of "oid (mem s1 a)"] l
    have "a \<notin> set (book_addrs s2)" by auto
    with shrinks_addrs [OF sh23] show ?thesis by blast
  next
    case 3
    have "s2 = s1"
    proof (cases "bids s1 \<noteq> [] \<and> snd (hd (bids s1)) \<noteq> []")
      case False
      with c1 show ?thesis by (auto simp: cancel_front_FillAndKill_def)
    next
      case True
      let ?b = "hd (snd (hd (bids s1)))"
      from True have inb: "?b \<in> set (queue_addrs (bids s1))"
        by (cases "bids s1") (auto simp: neq_Nil_conv)
      then have b: "?b \<in> set (book_addrs s1)" by (simp add: book_addrs_def)
      from ok have "distinct (queue_addrs (bids s1) @ queue_addrs (asks s1))"
        by (simp add: index_ok_def index_ok_on_def)
      with inb 3(1) have "?b \<noteq> a" by auto
      from others [OF b this] c1 show ?thesis by (simp add: cancel_front_FillAndKill_def)
    qed
    with c2 have "CancelOrderInternal (oid (mem s1 a)) s1 = Inr s3"
      by (simp add: cancel_front_FillAndKill_def 3 t)
    moreover from index_ok_in_book [OF ok 3(2)]
    have "map_of (orders s1) (oid (mem s1 a)) = Some a" .
    ultimately show ?thesis
      using CancelOrderInternal_wf_parts [OF ok, of "oid (mem s1 a)"] by auto
  qed
qed

lemma MatchOrders_FillAndKill_gone:
  assumes ok: "index_ok s" and lb: "levels_nonempty (bids s)" and la: "levels_nonempty (asks s)"
    and J: "front_or_gone a s" and t: "otype (mem s a) = FillAndKill"
    and others: "\<And>x. x \<in> set (book_addrs s) \<Longrightarrow> x \<noteq> a \<Longrightarrow> otype (mem s x) \<noteq> FillAndKill"
    and m: "MatchOrders s = Inr (trades, s')"
  shows "a \<notin> set (book_addrs s')"
proof -
  from MatchOrders_loop_front_or_gone [OF ok lb la J, of "[]"] obtain s1 ts1 where
    1: "MatchOrders_loop s [] = Inr (s1, ts1)" "front_or_gone a s1" "index_ok s1" "shrinks s s1"
    by blast
  from m 1(1) obtain s2 where
    c1: "cancel_front_FillAndKill (bids s1) s1 = Inr s2" and
    c2: "cancel_front_FillAndKill (asks s2) s2 = Inr s'"
    by (auto simp: MatchOrders_def split: sum.splits)
  have st: "otype (mem s1 x) = otype (mem s x)" for x
    using shrinksD(1) [OF 1(4)] by (simp add: same_static_def)
  show ?thesis
  proof (rule cancel_fronts_gone [OF 1(3) 1(2) _ _ c1 c2])
    show "otype (mem s1 a) = FillAndKill" by (simp add: st t)
  next
    fix x assume "x \<in> set (book_addrs s1)" and "x \<noteq> a"
    with shrinks_addrs [OF 1(4)] others [of x] show "otype (mem s1 x) \<noteq> FillAndKill"
      by (auto simp: st)
  qed
qed


subsection \<open>AddOrder on a well-formed book\<close>

lemma CanMatch_front:
  assumes u: "uncrossed s" and c: "CanMatch s (oside (mem s a)) (oprice (mem s a))"
  shows "front_or_gone a (insert_order a s)"
proof (cases "oside (mem s a)")
  case Buy
  with c have ne: "asks s \<noteq> []" and ge: "fst (hd (asks s)) \<le> oprice (mem s a)"
    by (auto simp: CanMatch_def split: if_splits)
  have "bids s = [] \<or> (fst (hd (bids s)) \<noteq> oprice (mem s a) \<and>
          oprice (mem s a) > fst (hd (bids s)))"
  proof (cases "bids s")
    case Nil
    then show ?thesis by simp
  next
    case (Cons kv rest)
    with ne u have "fst (hd (bids s)) < fst (hd (asks s))"
      by (cases "asks s") (auto simp: uncrossed_def)
    with ge show ?thesis by simp
  qed
  then have "map_push_back (\<lambda>x y. x > y) (oprice (mem s a)) a (bids s) =
      (oprice (mem s a), [a]) # bids s"
    by (rule map_push_back_front)
  with Buy show ?thesis by (simp add: front_or_gone_def insert_order_fields)
next
  case Sell
  with c have ne: "bids s \<noteq> []" and ge: "oprice (mem s a) \<le> fst (hd (bids s))"
    by (auto simp: CanMatch_def split: if_splits)
  have "asks s = [] \<or> (fst (hd (asks s)) \<noteq> oprice (mem s a) \<and>
          oprice (mem s a) < fst (hd (asks s)))"
  proof (cases "asks s")
    case Nil
    then show ?thesis by simp
  next
    case (Cons kv rest)
    with ne u have "fst (hd (bids s)) < fst (hd (asks s))"
      by (cases "bids s") (auto simp: uncrossed_def)
    with ge show ?thesis by simp
  qed
  then have "map_push_back (\<lambda>x y. x < y) (oprice (mem s a)) a (asks s) =
      (oprice (mem s a), [a]) # asks s"
    by (rule map_push_back_front)
  with Sell show ?thesis by (simp add: front_or_gone_def insert_order_fields)
qed

lemma AddOrder_accepted_props:
  assumes w: "well_formed s" and n: "\<not> orders_contains (orders s) (oid (mem s a))"
    and cm: "convert_market a s = Some s1"
  shows "\<exists>ts s'. MatchOrders (insert_order a s1) = Inr (ts, s') \<and> index_ok s' \<and>
           levels_nonempty (bids s') \<and> levels_nonempty (asks s') \<and> uncrossed s' \<and>
           shrinks (insert_order a s1) s' \<and>
           set (book_addrs s') \<subseteq> insert a (set (book_addrs s)) \<and>
           (\<forall>x. x \<noteq> a \<longrightarrow> mem (insert_order a s1) x = mem s x) \<and>
           (otype (mem s a) = FillAndKill \<and> CanMatch s (oside (mem s a)) (oprice (mem s a))
              \<longrightarrow> a \<notin> set (book_addrs s'))"
proof -
  let ?s2 = "insert_order a s1"
  note c = convert_market_Some [OF cm]
  from w have ok: "index_ok s" by (simp add: well_formed_def)
  have na: "a \<notin> set (book_addrs s)" by (rule not_live_not_in_book [OF ok n])
  have w1: "well_formed s1"
  proof (rule wf_mem_cong [OF w c(1,2,3)])
    fix x assume "x \<in> set (book_addrs s)"
    with na have "x \<noteq> a" by blast
    then show "mem s1 x = mem s x" by (rule c(5))
  qed
  then have ok1: "index_ok s1" and lb1: "levels_nonempty (bids s1)"
    and la1: "levels_nonempty (asks s1)" by (simp_all add: well_formed_def)
  have n1: "\<not> orders_contains (orders s1) (oid (mem s1 a))" using n by (simp add: c)
  have ok2: "index_ok ?s2" by (rule insert_order_index_ok [OF ok1 n1])
  note ne2 = insert_order_nonempty [OF lb1 la1, of a]
  have b1: "book_addrs s1 = book_addrs s" by (simp add: book_addrs_def c)
  have a2: "set (book_addrs ?s2) = insert a (set (book_addrs s))"
    by (simp add: insert_order_addrs b1)
  from MatchOrders_props [OF ok2 ne2] obtain ts s' where
    m: "MatchOrders ?s2 = Inr (ts, s')" and p: "index_ok s'" "shrinks ?s2 s'"
      "levels_nonempty (bids s')" "levels_nonempty (asks s')" "uncrossed s'"
    by blast
  have sub: "set (book_addrs s') \<subseteq> insert a (set (book_addrs s))"
    using shrinks_addrs [OF p(2)] a2 by simp
  have mm: "\<forall>x. x \<noteq> a \<longrightarrow> mem ?s2 x = mem s x"
    by (simp add: insert_order_fields(1) c(5))
  have fak: "a \<notin> set (book_addrs s')"
    if t: "otype (mem s a) = FillAndKill" and cmx: "CanMatch s (oside (mem s a)) (oprice (mem s a))"
  proof -
    from t c(11) have e: "s1 = s" by simp
    from w have u: "uncrossed s" and nf: "no_FillAndKill s" by (simp_all add: well_formed_def)
    have J: "front_or_gone a ?s2" unfolding e by (rule CanMatch_front [OF u cmx])
    show ?thesis
    proof (rule MatchOrders_FillAndKill_gone [OF ok2 ne2 J _ _ m])
      show "otype (mem ?s2 a) = FillAndKill" by (simp add: insert_order_fields(1) e t)
    next
      fix x assume "x \<in> set (book_addrs ?s2)" and "x \<noteq> a"
      with a2 have "x \<in> set (book_addrs s)" by simp
      with nf show "otype (mem ?s2 x) \<noteq> FillAndKill"
        by (simp add: insert_order_fields(1) e no_FillAndKill_def)
    qed
  qed
  from m p sub mm fak show ?thesis by blast
qed

text \<open>Every call of \<open>AddOrder\<close> on a well-formed book returns, and leaves a well-formed
  book, when the order passed in has no more remaining than its initial quantity, as
  every \<open>Order\<close> object has.\<close>

lemma AddOrder_wf:
  assumes w: "well_formed s" and r: "remainingQuantity (mem s a) \<le> initialQuantity (mem s a)"
  shows "\<exists>ts s'. AddOrder a s = Inr (ts, s') \<and> well_formed s'"
proof (cases rule: AddOrder_cases [of s a])
  case duplicate
  with w show ?thesis by simp
next
  case no_liquidity
  with w show ?thesis by simp
next
  case no_cross
  with w show ?thesis by simp
next
  case not_fillable
  with w show ?thesis by simp
next
  case (accepted s1)
  let ?s2 = "insert_order a s1"
  note c = convert_market_Some [OF accepted(2)]
  from AddOrder_accepted_props [OF w accepted(1,2)] obtain ts s' where
    m: "MatchOrders ?s2 = Inr (ts, s')" and p: "index_ok s'"
      "levels_nonempty (bids s')" "levels_nonempty (asks s')" "uncrossed s'"
      "shrinks ?s2 s'" "set (book_addrs s') \<subseteq> insert a (set (book_addrs s))"
      "\<forall>x. x \<noteq> a \<longrightarrow> mem ?s2 x = mem s x"
      "otype (mem s a) = FillAndKill \<and> CanMatch s (oside (mem s a)) (oprice (mem s a))
         \<longrightarrow> a \<notin> set (book_addrs s')"
    by blast
  from w have ro: "resting_ok s" and nf: "no_FillAndKill s" by (simp_all add: well_formed_def)
  have st: "otype (mem s' x) = otype (mem ?s2 x)"
    "initialQuantity (mem s' x) = initialQuantity (mem ?s2 x)" for x
    using shrinksD(1) [OF p(5)] by (simp_all add: same_static_def)
  have le: "remainingQuantity (mem s' x) \<le> remainingQuantity (mem ?s2 x)" for x
    by (rule shrinksD(2) [OF p(5)])
  have m2a: "mem ?s2 a = mem s1 a" by (simp add: insert_order_fields(1))
  have "resting_ok s'"
    unfolding resting_ok_def
  proof (intro ballI)
    fix x assume x: "x \<in> set (book_addrs s')"
    show "otype (mem s' x) \<noteq> Market \<and> remainingQuantity (mem s' x) \<le> initialQuantity (mem s' x)"
    proof (cases "x = a")
      case True
      have "remainingQuantity (mem s' a) \<le> remainingQuantity (mem s a)"
        using le [of a] by (simp add: m2a c)
      from this r have "remainingQuantity (mem s' a) \<le> initialQuantity (mem s a)"
        by (rule order_trans)
      with True c(10) show ?thesis by (simp add: st m2a c)
    next
      case False
      with x p(6) have xs: "x \<in> set (book_addrs s)" by blast
      from False p(7) have e: "mem ?s2 x = mem s x" by simp
      from ro xs have "otype (mem s x) \<noteq> Market"
        "remainingQuantity (mem s x) \<le> initialQuantity (mem s x)"
        by (simp_all add: resting_ok_def)
      with le [of x] show ?thesis by (simp add: st e)
    qed
  qed
  moreover have "no_FillAndKill s'"
    unfolding no_FillAndKill_def
  proof (intro ballI)
    fix x assume x: "x \<in> set (book_addrs s')"
    show "otype (mem s' x) \<noteq> FillAndKill"
    proof (cases "x = a")
      case True
      show ?thesis
      proof
        assume "otype (mem s' x) = FillAndKill"
        with True have t1: "otype (mem s1 a) = FillAndKill" by (simp add: st m2a)
        then have "otype (mem s a) \<noteq> Market"
          using accepted(2) by (auto simp: convert_market_def ToGoodTillCancel_def split: if_splits)
        with c(11) have "s1 = s" by simp
        with t1 have t: "otype (mem s a) = FillAndKill" by simp
        with accepted(3) p(8) have "a \<notin> set (book_addrs s')" by simp
        with x True show False by simp
      qed
    next
      case False
      with x p(6) have xs: "x \<in> set (book_addrs s)" by blast
      from False p(7) have e: "mem ?s2 x = mem s x" by simp
      from nf xs show ?thesis by (simp add: st e no_FillAndKill_def)
    qed
  qed
  ultimately have "well_formed s'" using p(1-4) by (simp add: well_formed_def)
  with m accepted(5) show ?thesis by simp
qed


text \<open>\<open>fills_only s s'\<close>: from \<open>s\<close> to \<open>s'\<close> no order object gained remaining quantity
  or changed its initial quantity.\<close>

definition fills_only :: "OrderBook \<Rightarrow> OrderBook \<Rightarrow> bool" where
  "fills_only s s' = (\<forall>x. initialQuantity (mem s' x) = initialQuantity (mem s x) \<and>
      remainingQuantity (mem s' x) \<le> remainingQuantity (mem s x))"

lemma fills_only_refl [simp]: "fills_only s s"
  by (simp add: fills_only_def)

lemma fills_only_trans: "fills_only s s1 \<Longrightarrow> fills_only s1 s2 \<Longrightarrow> fills_only s s2"
  unfolding fills_only_def by (metis order_trans)

lemma shrinks_fills_only: "shrinks s s' \<Longrightarrow> fills_only s s'"
  unfolding fills_only_def using shrinksD(1,2) [of s s'] by (simp add: same_static_def)

lemma AddOrder_frame:
  assumes w: "well_formed s" and r: "AddOrder a s = Inr (ts, s')"
  shows "set (book_addrs s') \<subseteq> insert a (set (book_addrs s))" and "fills_only s s'"
proof -
  have "set (book_addrs s') \<subseteq> insert a (set (book_addrs s)) \<and> fills_only s s'"
  proof (cases rule: AddOrder_cases [of s a])
    case duplicate
    with r show ?thesis by auto
  next
    case no_liquidity
    with r show ?thesis by auto
  next
    case no_cross
    with r show ?thesis by auto
  next
    case not_fillable
    with r show ?thesis by auto
  next
    case (accepted s1)
    note c = convert_market_Some [OF accepted(2)]
    from AddOrder_accepted_props [OF w accepted(1,2)] r accepted(5) have
      p: "shrinks (insert_order a s1) s'" "set (book_addrs s') \<subseteq> insert a (set (book_addrs s))"
      "\<forall>x. x \<noteq> a \<longrightarrow> mem (insert_order a s1) x = mem s x"
      by auto
    have "fills_only s (insert_order a s1)"
      unfolding fills_only_def
    proof (intro allI)
      fix x
      show "initialQuantity (mem (insert_order a s1) x) = initialQuantity (mem s x) \<and>
            remainingQuantity (mem (insert_order a s1) x) \<le> remainingQuantity (mem s x)"
        using p(3) c(8,9) by (cases "x = a") (simp_all add: insert_order_fields(1))
    qed
    from fills_only_trans [OF this shrinks_fills_only [OF p(1)]] p(2) show ?thesis by simp
  qed
  then show "set (book_addrs s') \<subseteq> insert a (set (book_addrs s))" and "fills_only s s'"
    by simp_all
qed

section \<open>FillAndKill\<close>

lemma index_ok_Size_mono:
  assumes "index_ok s'" and "set (orders s') \<subseteq> set (orders s)"
  shows "Size s' \<le> Size s"
proof -
  from assms(1) have "distinct (map fst (orders s'))" by (simp add: index_ok_def index_ok_on_def)
  then have "distinct (orders s')" by (rule distinct_map [THEN iffD1, THEN conjunct1])
  then have "length (orders s') = card (set (orders s'))" by (simp add: distinct_card)
  also have "\<dots> \<le> card (set (orders s))" by (rule card_mono [OF _ assms(2)]) simp
  also have "\<dots> \<le> length (orders s)" by (rule card_length)
  finally show ?thesis by (simp add: Size_def)
qed

text \<open>
  Claim C5. For an \<open>AddOrder\<close> of a FillAndKill order on a well-formed book: when no
  cross is possible at its price the call returns the empty trade list and the book as
  it was; and in every case the call returns, and afterwards the order holds no position
  in either side's queues, is not an entry of the id-lookup, and \<open>Size\<close> is no larger
  than before.
\<close>

theorem FillAndKill_never_rests:
  assumes w: "well_formed s" and t: "otype (mem s a) = FillAndKill"
  shows "(\<not> CanMatch s (oside (mem s a)) (oprice (mem s a)) \<longrightarrow> AddOrder a s = Inr ([], s)) \<and>
         (\<exists>ts s'. AddOrder a s = Inr (ts, s') \<and> a \<notin> set (book_addrs s') \<and>
            a \<notin> snd ` set (orders s') \<and> Size s' \<le> Size s)"
proof -
  from w have ok: "index_ok s" and nf: "no_FillAndKill s" by (simp_all add: well_formed_def)
  from nf t have na: "a \<notin> set (book_addrs s)" by (auto simp: no_FillAndKill_def)
  then have no: "a \<notin> snd ` set (orders s)" by (simp add: index_ok_orders_addrs [OF ok])
  show ?thesis
  proof (cases rule: AddOrder_cases [of s a])
    case duplicate
    with na no show ?thesis by simp
  next
    case no_liquidity
    with na no show ?thesis by simp
  next
    case no_cross
    with na no show ?thesis by simp
  next
    case not_fillable
    with na no show ?thesis by simp
  next
    case (accepted s1)
    from accepted(3) t have cmx: "CanMatch s (oside (mem s a)) (oprice (mem s a))" by simp
    from t convert_market_Some(11) [OF accepted(2)] have e: "s1 = s" by simp
    from AddOrder_accepted_props [OF w accepted(1,2)] t cmx obtain ts s' where
      m: "MatchOrders (insert_order a s1) = Inr (ts, s')" and ok': "index_ok s'"
      and sh: "shrinks (insert_order a s1) s'" and g: "a \<notin> set (book_addrs s')"
      by blast
    from g have g': "a \<notin> snd ` set (orders s')" by (simp add: index_ok_orders_addrs [OF ok'])
    have "set (orders s') \<subseteq> set (orders s)"
    proof
      fix kv assume kv: "kv \<in> set (orders s')"
      with shrinksD(6) [OF sh] have "kv \<in> set (orders (insert_order a s))" unfolding e by blast
      then have "kv \<in> set (orders s) \<or> kv = (oid (mem s a), a)"
        by (auto simp: insert_order_fields(4) [OF accepted(1)])
      moreover from kv g' have "snd kv \<noteq> a" by auto
      ultimately show "kv \<in> set (orders s)" by auto
    qed
    from index_ok_Size_mono [OF ok' this] have "Size s' \<le> Size s" .
    with m g g' accepted(5) cmx show ?thesis by simp
  qed
qed


lemmas well_formed_defs =
  well_formed_def index_ok_def index_ok_on_def levels_nonempty_def uncrossed_def resting_ok_def
  no_FillAndKill_def book_addrs_def

lemma wf_OrderBook_new: "well_formed OrderBook_new"
  by (simp add: well_formed_defs OrderBook_new_def)

lemma wf_book_one_bid: "well_formed book_one_bid"
  by (simp add: well_formed_defs book_one_bid_def Order_new_def)

text \<open>\<open>book_one_bid\<close> and a new FillAndKill sell of 15 at price \<open>p\<close> (id 2) at address 2.\<close>

definition book_with_FillAndKill :: "Price \<Rightarrow> OrderBook" where
  "book_with_FillAndKill p = make_shared 2 (Order_new FillAndKill 2 Sell p 15) book_one_bid"

lemma wf_book_with_FillAndKill: "well_formed (book_with_FillAndKill p)"
  by (rule wf_mem_cong [OF wf_book_one_bid])
     (simp_all add: book_with_FillAndKill_def make_shared_def book_one_bid_def book_addrs_def)

theorem FillAndKill_never_rests_witness:
  "well_formed (book_with_FillAndKill 100) \<and> otype (mem (book_with_FillAndKill 100) 2) = FillAndKill \<and>
   CanMatch (book_with_FillAndKill 100) Sell 100 \<and>
   (\<exists>ts s'. AddOrder 2 (book_with_FillAndKill 100) = Inr (ts, s') \<and>
      map (\<lambda>t. quantity (ask t)) ts = [10] \<and> remainingQuantity (mem s' 2) = 5 \<and>
      2 \<notin> set (book_addrs s') \<and> 2 \<notin> snd ` set (orders s') \<and>
      Size s' \<le> Size (book_with_FillAndKill 100)) \<and>
   \<not> CanMatch (book_with_FillAndKill 101) Sell 101 \<and>
   AddOrder 2 (book_with_FillAndKill 101) = Inr ([], book_with_FillAndKill 101)"
proof -
  have t: "otype (mem (book_with_FillAndKill p) 2) = FillAndKill"
    "oside (mem (book_with_FillAndKill p) 2) = Sell"
    "oprice (mem (book_with_FillAndKill p) 2) = p" for p
    by (simp_all add: book_with_FillAndKill_def make_shared_def Order_new_def)
  have c: "CanMatch (book_with_FillAndKill 100) Sell 100"
    "\<not> CanMatch (book_with_FillAndKill 101) Sell 101"
    by (simp_all add: book_with_FillAndKill_def make_shared_def CanMatch_def book_one_bid_def)
  from FillAndKill_never_rests [OF wf_book_with_FillAndKill t(1), of 100]
  obtain ts s' where r: "AddOrder 2 (book_with_FillAndKill 100) = Inr (ts, s')"
    "2 \<notin> set (book_addrs s')" "2 \<notin> snd ` set (orders s')"
    "Size s' \<le> Size (book_with_FillAndKill 100)"
    by blast
  have "\<exists>ts s'. AddOrder 2 (book_with_FillAndKill 100) = Inr (ts, s') \<and>
      map (\<lambda>t. quantity (ask t)) ts = [10] \<and> remainingQuantity (mem s' 2) = 5"
    by (simp add: eval_defs book_with_FillAndKill_def book_one_bid_def)
  with r have 1: "\<exists>ts s'. AddOrder 2 (book_with_FillAndKill 100) = Inr (ts, s') \<and>
      map (\<lambda>t. quantity (ask t)) ts = [10] \<and> remainingQuantity (mem s' 2) = 5 \<and>
      2 \<notin> set (book_addrs s') \<and> 2 \<notin> snd ` set (orders s') \<and>
      Size s' \<le> Size (book_with_FillAndKill 100)"
    by auto
  from FillAndKill_never_rests [OF wf_book_with_FillAndKill t(1), of 101] c(2)
  have 2: "AddOrder 2 (book_with_FillAndKill 101) = Inr ([], book_with_FillAndKill 101)"
    by (simp add: t)
  from wf_book_with_FillAndKill t(1) c 1 2 show ?thesis by blast
qed


section \<open>Every operation keeps the book well-formed\<close>

lemma shrinks_wf:
  assumes w: "well_formed s" and ok: "index_ok s'" and sh: "shrinks s s'"
    and lb: "levels_nonempty (bids s')" and la: "levels_nonempty (asks s')"
  shows "well_formed s'"
  using w ok lb la shrinks_uncrossed [OF sh] shrinks_resting_ok [OF sh]
    shrinks_no_FillAndKill [OF sh]
  by (simp add: well_formed_def)

lemma CancelOrderInternal_wf:
  assumes w: "well_formed s"
  shows "\<exists>s'. CancelOrderInternal i s = Inr s' \<and> well_formed s' \<and> shrinks s s' \<and> mem s' = mem s"
proof -
  from w have ok: "index_ok s" and l: "levels_nonempty (bids s)" "levels_nonempty (asks s)"
    by (simp_all add: well_formed_def)
  from CancelOrderInternal_wf_parts [OF ok, of i] l obtain s' where
    c: "CancelOrderInternal i s = Inr s'" "index_ok s'" "shrinks s s'" "mem s' = mem s"
      "levels_nonempty (bids s')" "levels_nonempty (asks s')"
    by blast
  from shrinks_wf [OF w c(2,3,5,6)] c(1,3,4) show ?thesis by simp
qed

lemma cancel_all_wf:
  assumes "well_formed s"
  shows "\<exists>s'. cancel_all ids s = Inr s' \<and> well_formed s' \<and> shrinks s s' \<and> mem s' = mem s"
  using assms
proof (induction ids arbitrary: s)
  case Nil
  then show ?case by simp
next
  case (Cons i ids)
  from CancelOrderInternal_wf [OF Cons.prems, of i] obtain s1 where
    1: "CancelOrderInternal i s = Inr s1" "well_formed s1" "shrinks s s1" "mem s1 = mem s" by blast
  from Cons.IH [OF 1(2)] obtain s' where
    2: "cancel_all ids s1 = Inr s'" "well_formed s'" "shrinks s1 s'" "mem s' = mem s1" by blast
  from 1 2 shrinks_trans [OF 1(3) 2(3)] show ?case by simp
qed

lemma make_shared_wf:
  assumes w: "well_formed s" and a: "a \<notin> set (book_addrs s)"
  shows "well_formed (make_shared a ord s)"
proof (rule wf_mem_cong [OF w])
  fix x assume "x \<in> set (book_addrs s)"
  with a have "x \<noteq> a" by blast
  then show "mem (make_shared a ord s) x = mem s x" by (simp add: make_shared_def)
qed (simp_all add: make_shared_def)

lemma make_shared_book_addrs [simp]: "book_addrs (make_shared a ord s) = book_addrs s"
  by (simp add: make_shared_def book_addrs_def)

text \<open>\<open>all_orders_ok\<close>: every Order object, resting or not, has no more remaining than
  its initial quantity.\<close>

definition all_orders_ok :: "OrderBook \<Rightarrow> bool" where
  "all_orders_ok s = (\<forall>x. remainingQuantity (mem s x) \<le> initialQuantity (mem s x))"

lemma fills_only_all_orders_ok:
  assumes "fills_only s s'" and "all_orders_ok s"
  shows "all_orders_ok s'"
  unfolding all_orders_ok_def
proof
  fix x
  from assms(1) have "initialQuantity (mem s' x) = initialQuantity (mem s x)"
    "remainingQuantity (mem s' x) \<le> remainingQuantity (mem s x)"
    by (simp_all add: fills_only_def)
  moreover from assms(2) have "remainingQuantity (mem s x) \<le> initialQuantity (mem s x)"
    by (simp add: all_orders_ok_def)
  ultimately show "remainingQuantity (mem s' x) \<le> initialQuantity (mem s' x)" by simp
qed

lemma make_shared_all_orders_ok:
  "all_orders_ok s \<Longrightarrow> all_orders_ok (make_shared a (Order_new t i sd p q) s)"
  by (simp add: all_orders_ok_def make_shared_def Order_new_def)

text \<open>\<open>AddOrder\<close> of a newly constructed order.\<close>

lemma AddOrder_new_wf:
  assumes w: "well_formed s" and a: "a \<notin> set (book_addrs s)" and g: "all_orders_ok s"
  shows "\<exists>ts s'. AddOrder a (make_shared a (Order_new t i sd p q) s) = Inr (ts, s') \<and> well_formed s' \<and>
           set (book_addrs s') \<subseteq> insert a (set (book_addrs s)) \<and> all_orders_ok s'"
proof -
  let ?s = "make_shared a (Order_new t i sd p q) s"
  have w': "well_formed ?s" by (rule make_shared_wf [OF w a])
  have "remainingQuantity (mem ?s a) \<le> initialQuantity (mem ?s a)"
    by (simp add: make_shared_def Order_new_def)
  from AddOrder_wf [OF w' this] obtain ts s' where
    r: "AddOrder a ?s = Inr (ts, s')" "well_formed s'" by blast
  from AddOrder_frame [OF w' r(1)] have
    f: "set (book_addrs s') \<subseteq> insert a (set (book_addrs s))" "fills_only ?s s'" by simp_all
  from fills_only_all_orders_ok [OF f(2) make_shared_all_orders_ok [OF g]]
  have "all_orders_ok s'" .
  with r f(1) show ?thesis by blast
qed

lemma CancelOrder_wf:
  assumes w: "well_formed s" and g: "all_orders_ok s"
  shows "\<exists>s'. CancelOrder i s = Inr s' \<and> well_formed s' \<and>
           set (book_addrs s') \<subseteq> set (book_addrs s) \<and> all_orders_ok s'"
proof -
  from CancelOrderInternal_wf [OF w, of i] obtain s' where
    c: "CancelOrderInternal i s = Inr s'" "well_formed s'" "shrinks s s'" "mem s' = mem s" by blast
  from g c(4) have "all_orders_ok s'" by (simp add: all_orders_ok_def)
  with c shrinks_addrs [OF c(3)] show ?thesis by (simp add: CancelOrder_def)
qed

lemma ModifyOrder_wf:
  assumes w: "well_formed s" and a: "a \<notin> set (book_addrs s)" and g: "all_orders_ok s"
  shows "\<exists>ts s'. ModifyOrder md a s = Inr (ts, s') \<and> well_formed s' \<and>
           set (book_addrs s') \<subseteq> insert a (set (book_addrs s)) \<and> all_orders_ok s'"
proof (cases "map_of (orders s) (m_orderId md)")
  case None
  with w g show ?thesis by (auto simp: ModifyOrder_def)
next
  case (Some e)
  from CancelOrder_wf [OF w g, of "m_orderId md"] obtain s1 where
    c: "CancelOrder (m_orderId md) s = Inr s1" "well_formed s1"
      "set (book_addrs s1) \<subseteq> set (book_addrs s)" "all_orders_ok s1" by blast
  from c(3) a have a1: "a \<notin> set (book_addrs s1)" by blast
  from AddOrder_new_wf [OF c(2) a1 c(4),
      of "otype (mem s e)" "m_orderId md" "m_side md" "m_price md" "m_quantity md"]
  obtain ts s' where
    r: "AddOrder a (make_shared a (ToOrderPointer md (otype (mem s e))) s1) = Inr (ts, s')"
      "well_formed s'" "set (book_addrs s') \<subseteq> insert a (set (book_addrs s1))" "all_orders_ok s'"
    unfolding ToOrderPointer_def by blast
  from r(3) c(3) have "set (book_addrs s') \<subseteq> insert a (set (book_addrs s))" by blast
  with Some c(1) r show ?thesis by (simp add: ModifyOrder_def Let_def)
qed

lemma PruneGoodForDayOrders_wf:
  assumes w: "well_formed s" and g: "all_orders_ok s"
  shows "\<exists>s'. PruneGoodForDayOrders s = Inr s' \<and> well_formed s' \<and>
           set (book_addrs s') \<subseteq> set (book_addrs s) \<and> all_orders_ok s'"
proof -
  from cancel_all_wf [OF w] obtain s' where
    c: "PruneGoodForDayOrders s = Inr s'" "well_formed s'" "shrinks s s'" "mem s' = mem s"
    unfolding PruneGoodForDayOrders_def by blast
  from g c(4) have "all_orders_ok s'" by (simp add: all_orders_ok_def)
  with c shrinks_addrs [OF c(3)] show ?thesis by simp
qed

text \<open>Any sequence of calls, from a well-formed book whose orders all live below the
  next address to be allocated, returns and ends in a well-formed book.\<close>

lemma below_Suc:
  assumes "A \<subseteq> insert n B" and "\<forall>x \<in> B. x < n"
  shows "\<forall>x \<in> A. x < Suc n"
proof
  fix x assume "x \<in> A"
  with assms(1) have "x = n \<or> x \<in> B" by blast
  with assms(2) show "x < Suc n" by (auto simp: less_Suc_eq)
qed

lemma below_subset:
  assumes "A \<subseteq> B" and "\<forall>x \<in> B. x < (n :: nat)"
  shows "\<forall>x \<in> A. x < n"
  using assms by blast

lemma run_wf:
  assumes "well_formed s" and "\<forall>x \<in> set (book_addrs s). x < n" and "all_orders_ok s"
  shows "\<exists>s'. run n cs s = Inr s' \<and> well_formed s' \<and> all_orders_ok s'"
  using assms
proof (induction cs arbitrary: n s)
  case Nil
  then show ?case by simp
next
  case (Cons c cs)
  from Cons.prems(2) have fresh: "n \<notin> set (book_addrs s)" by auto
  show ?case
  proof (cases c)
    case (CallAdd t i sd p q)
    from AddOrder_new_wf [OF Cons.prems(1) fresh Cons.prems(3), of t i sd p q] obtain ts s1 where
      r: "AddOrder n (make_shared n (Order_new t i sd p q) s) = Inr (ts, s1)" "well_formed s1"
        "set (book_addrs s1) \<subseteq> insert n (set (book_addrs s))" "all_orders_ok s1" by blast
    from r(3) Cons.prems(2) have "\<forall>x \<in> set (book_addrs s1). x < Suc n"
      by (rule below_Suc)
    from Cons.IH [OF r(2) this r(4)] r(1) CallAdd show ?thesis by simp
  next
    case (CallCancel i)
    from CancelOrder_wf [OF Cons.prems(1,3), of i] obtain s1 where
      r: "CancelOrder i s = Inr s1" "well_formed s1" "set (book_addrs s1) \<subseteq> set (book_addrs s)"
        "all_orders_ok s1" by blast
    from r(3) Cons.prems(2) have "\<forall>x \<in> set (book_addrs s1). x < n"
      by (rule below_subset)
    from Cons.IH [OF r(2) this r(4)] r(1) CallCancel show ?thesis by simp
  next
    case (CallModify md)
    from ModifyOrder_wf [OF Cons.prems(1) fresh Cons.prems(3), of md] obtain ts s1 where
      r: "ModifyOrder md n s = Inr (ts, s1)" "well_formed s1"
        "set (book_addrs s1) \<subseteq> insert n (set (book_addrs s))" "all_orders_ok s1" by blast
    from r(3) Cons.prems(2) have "\<forall>x \<in> set (book_addrs s1). x < Suc n"
      by (rule below_Suc)
    from Cons.IH [OF r(2) this r(4)] r(1) CallModify show ?thesis by simp
  next
    case CallPrune
    from PruneGoodForDayOrders_wf [OF Cons.prems(1,3)] obtain s1 where
      r: "PruneGoodForDayOrders s = Inr s1" "well_formed s1" "set (book_addrs s1) \<subseteq> set (book_addrs s)"
        "all_orders_ok s1" by blast
    from r(3) Cons.prems(2) have "\<forall>x \<in> set (book_addrs s1). x < n"
      by (rule below_subset)
    from Cons.IH [OF r(2) this r(4)] r(1) CallPrune show ?thesis by simp
  qed
qed

lemma run_new_wf: "\<exists>s'. run 0 cs OrderBook_new = Inr s' \<and> well_formed s' \<and> all_orders_ok s'"
  by (rule run_wf [OF wf_OrderBook_new])
     (simp_all add: OrderBook_new_def book_addrs_def all_orders_ok_def empty_order_def Order_new_def)


section \<open>Trades\<close>

text \<open>The trade that one pass of the inner loop emits.\<close>

lemma match_one_trade:
  assumes "match_one s = Inr (s1, t)"
  shows "t = \<lparr>bid = \<lparr>orderId = oid (mem s (hd (snd (hd (bids s))))),
                     price = fst (hd (asks s)),
                     quantity = min (remainingQuantity (mem s (hd (snd (hd (bids s))))))
                                    (remainingQuantity (mem s (hd (snd (hd (asks s))))))\<rparr>,
              ask = \<lparr>orderId = oid (mem s (hd (snd (hd (asks s))))),
                     price = fst (hd (asks s)),
                     quantity = min (remainingQuantity (mem s (hd (snd (hd (bids s))))))
                                    (remainingQuantity (mem s (hd (snd (hd (asks s))))))\<rparr>\<rparr>"
proof -
  let ?b = "hd (snd (hd (bids s)))" and ?a = "hd (snd (hd (asks s)))"
  let ?q = "min (remainingQuantity (mem s ?b)) (remainingQuantity (mem s ?a))"
  from assms obtain m2 where fp: "fill_pair (mem s) ?b ?a ?q = Inr m2"
    and t: "t = \<lparr>bid = \<lparr>orderId = oid (m2 ?b), price = fst (hd (asks s)), quantity = ?q\<rparr>,
                  ask = \<lparr>orderId = oid (m2 ?a), price = fst (hd (asks s)), quantity = ?q\<rparr>\<rparr>"
    by (auto simp: match_one_def Let_def split: sum.splits)
  from fill_pair_static [OF fp] have "oid (m2 x) = oid (mem s x)" for x
    by (simp add: same_static_def)
  with t show ?thesis by simp
qed

section \<open>The fatal branch of Fill\<close>

text \<open>
  Claim C8. \<open>Order::Fill\<close> throws exactly when asked to fill more than the remaining
  quantity, and otherwise subtracts. One pass of the matching loop on a consistent book
  fills both heads by the minimum of their remaining quantities and does not throw. Any
  sequence of calls of the public interface on a new book returns (no exception, of
  either kind), ends in a well-formed book, and every Order object then has
  \<open>0 \<le> remaining \<le> initial\<close>.
\<close>

theorem fill_beyond_remaining_unreachable:
  "(Order_Fill q ord = Inl LogicError \<longleftrightarrow> remainingQuantity ord < q) \<and>
   (\<not> remainingQuantity ord < q \<longrightarrow>
      Order_Fill q ord = Inr (ord\<lparr>remainingQuantity := remainingQuantity ord - q\<rparr>)) \<and>
   (index_ok s \<and> heads_nonempty s \<longrightarrow>
      (\<exists>s1 t. match_one s = Inr (s1, t) \<and>
         quantity (bid t) = min (remainingQuantity (mem s (hd (snd (hd (bids s))))))
                                (remainingQuantity (mem s (hd (snd (hd (asks s)))))) \<and>
         quantity (ask t) = quantity (bid t))) \<and>
   (\<exists>s'. run 0 cs OrderBook_new = Inr s' \<and> well_formed s' \<and>
      (\<forall>x. 0 \<le> remainingQuantity (mem s' x) \<and>
           remainingQuantity (mem s' x) \<le> initialQuantity (mem s' x)))"
proof (intro conjI impI)
  show "Order_Fill q ord = Inl LogicError \<longleftrightarrow> remainingQuantity ord < q"
    by (simp add: Order_Fill_def)
  show "Order_Fill q ord = Inr (ord\<lparr>remainingQuantity := remainingQuantity ord - q\<rparr>)"
    if "\<not> remainingQuantity ord < q"
    using that by (simp add: Order_Fill_def)
  show "\<exists>s1 t. match_one s = Inr (s1, t) \<and>
         quantity (bid t) = min (remainingQuantity (mem s (hd (snd (hd (bids s))))))
                                (remainingQuantity (mem s (hd (snd (hd (asks s)))))) \<and>
         quantity (ask t) = quantity (bid t)"
    if "index_ok s \<and> heads_nonempty s"
  proof -
    from that match_one_ok [of s] obtain s1 t where m: "match_one s = Inr (s1, t)" by blast
    from match_one_trade [OF m] m show ?thesis by simp
  qed
  from run_new_wf [of cs] obtain s' where
    r: "run 0 cs OrderBook_new = Inr s'" "well_formed s'" "all_orders_ok s'" by blast
  then show "\<exists>s'. run 0 cs OrderBook_new = Inr s' \<and> well_formed s' \<and>
      (\<forall>x. 0 \<le> remainingQuantity (mem s' x) \<and>
           remainingQuantity (mem s' x) \<le> initialQuantity (mem s' x))"
    by (auto simp: all_orders_ok_def)
qed

text \<open>The crossed book inside \<open>AddOrder\<close>, after the insertion and before the matching
  loop: the buy of 10 at 100 (address 1) and the FillAndKill sell of 15 at 100
  (address 2).\<close>

definition book_crossed :: OrderBook where
  "book_crossed = insert_order 2 (book_with_FillAndKill 100)"

lemma book_crossed_ok: "index_ok book_crossed \<and> heads_nonempty book_crossed"
proof -
  have "index_ok (book_with_FillAndKill 100)"
    using wf_book_with_FillAndKill [of 100] by (simp add: well_formed_def)
  moreover have "\<not> orders_contains (orders (book_with_FillAndKill 100))
      (oid (mem (book_with_FillAndKill 100) 2))"
    by (simp add: book_with_FillAndKill_def make_shared_def book_one_bid_def
          orders_contains_def Order_new_def)
  ultimately have "index_ok book_crossed"
    unfolding book_crossed_def by (rule insert_order_index_ok)
  moreover have "heads_nonempty book_crossed"
    by (simp add: book_crossed_def insert_order_def book_with_FillAndKill_def make_shared_def
          book_one_bid_def heads_nonempty_def Order_new_def Let_def)
  ultimately show ?thesis ..
qed

theorem fill_beyond_remaining_unreachable_witness:
  "Order_Fill 11 (Order_new GoodTillCancel 1 Buy 100 10) = Inl LogicError \<and>
   Order_Fill 3 (Order_new GoodTillCancel 1 Buy 100 10) =
     Inr ((Order_new GoodTillCancel 1 Buy 100 10)\<lparr>remainingQuantity := 7\<rparr>) \<and>
   index_ok book_crossed \<and> heads_nonempty book_crossed \<and>
   (\<exists>s1 t. match_one book_crossed = Inr (s1, t) \<and> quantity (bid t) = 10 \<and> quantity (ask t) = 10) \<and>
   (\<exists>s'. run 0 [CallAdd GoodTillCancel 1 Buy 100 10, CallAdd GoodTillCancel 2 Sell 99 5]
            OrderBook_new = Inr s' \<and> well_formed s' \<and>
          remainingQuantity (mem s' 0) = 5 \<and> initialQuantity (mem s' 0) = 10 \<and>
          remainingQuantity (mem s' 0) \<le> initialQuantity (mem s' 0))"
proof -
  let ?o = "Order_new GoodTillCancel 1 Buy 100 10"
  let ?cs = "[CallAdd GoodTillCancel 1 Buy 100 10, CallAdd GoodTillCancel 2 Sell 99 5]"
  note a = fill_beyond_remaining_unreachable [of 11 ?o book_crossed ?cs]
  note b = fill_beyond_remaining_unreachable [of 3 ?o book_crossed ?cs]
  have r: "remainingQuantity ?o = 10" by (simp add: Order_new_def)
  from a have 1: "Order_Fill 11 ?o = Inl LogicError" by (simp add: r)
  from b have 2: "Order_Fill 3 ?o = Inr (?o\<lparr>remainingQuantity := 7\<rparr>)" by (simp add: r)
  have h: "remainingQuantity (mem book_crossed (hd (snd (hd (bids book_crossed))))) = 10"
    "remainingQuantity (mem book_crossed (hd (snd (hd (asks book_crossed))))) = 15"
    by (simp_all add: book_crossed_def insert_order_def book_with_FillAndKill_def make_shared_def
          book_one_bid_def Order_new_def Let_def)
  from a book_crossed_ok obtain s1 t where "match_one book_crossed = Inr (s1, t)"
    "quantity (bid t) = min (remainingQuantity (mem book_crossed (hd (snd (hd (bids book_crossed))))))
       (remainingQuantity (mem book_crossed (hd (snd (hd (asks book_crossed))))))"
    "quantity (ask t) = quantity (bid t)"
    by blast
  then have 3: "\<exists>s1 t. match_one book_crossed = Inr (s1, t) \<and> quantity (bid t) = 10 \<and>
             quantity (ask t) = 10"
    by (auto simp: h)
  from a obtain s' where s': "run 0 ?cs OrderBook_new = Inr s'" "well_formed s'"
    "remainingQuantity (mem s' 0) \<le> initialQuantity (mem s' 0)" by blast
  have "\<exists>s'. run 0 ?cs OrderBook_new = Inr s' \<and>
          remainingQuantity (mem s' 0) = 5 \<and> initialQuantity (mem s' 0) = 10"
    by (simp add: eval_defs)
  with s' have 4: "\<exists>s'. run 0 ?cs OrderBook_new = Inr s' \<and> well_formed s' \<and>
          remainingQuantity (mem s' 0) = 5 \<and> initialQuantity (mem s' 0) = 10 \<and>
          remainingQuantity (mem s' 0) \<le> initialQuantity (mem s' 0)"
    by auto
  from 1 2 book_crossed_ok 3 4 show ?thesis by blast
qed


section \<open>Market orders\<close>

lemma sorted_lt_last_Max:
  "sorted_wrt (<) (map fst (m :: levels)) \<Longrightarrow> m \<noteq> [] \<Longrightarrow> fst (last m) = Max (fst ` set m)"
proof (induction m)
  case Nil
  then show ?case by simp
next
  case (Cons kv m)
  show ?case
  proof (cases "m = []")
    case True
    then show ?thesis by simp
  next
    case False
    with Cons have ih: "fst (last m) = Max (fst ` set m)" by simp
    from Cons.prems have "\<forall>k \<in> fst ` set m. fst kv < k" by auto
    moreover from False have "last m \<in> set m" by simp
    ultimately have lt: "fst kv < fst (last m)" by blast
    from False have "Max (insert (fst kv) (fst ` set m)) = max (fst kv) (Max (fst ` set m))"
      by (intro Max_insert) simp_all
    also have "\<dots> = Max (fst ` set m)" using lt ih by (simp only: max_def) simp
    finally show ?thesis using False ih by simp
  qed
qed

lemma sorted_gt_last_Min:
  "sorted_wrt (>) (map fst (m :: levels)) \<Longrightarrow> m \<noteq> [] \<Longrightarrow> fst (last m) = Min (fst ` set m)"
proof (induction m)
  case Nil
  then show ?case by simp
next
  case (Cons kv m)
  show ?case
  proof (cases "m = []")
    case True
    then show ?thesis by simp
  next
    case False
    with Cons have ih: "fst (last m) = Min (fst ` set m)" by simp
    from Cons.prems have "\<forall>k \<in> fst ` set m. k < fst kv" by auto
    moreover from False have "last m \<in> set m" by simp
    ultimately have lt: "fst (last m) < fst kv" by blast
    from False have "Min (insert (fst kv) (fst ` set m)) = min (fst kv) (Min (fst ` set m))"
      by (intro Min_insert) simp_all
    also have "\<dots> = Min (fst ` set m)" using lt ih by (simp only: min_def) simp
    finally show ?thesis using False ih by simp
  qed
qed

text \<open>In a book with no empty level whose level keys are the prices of the orders queued
  there, the keys of a side are the prices of its resting orders.\<close>

lemma level_keys_are_prices:
  assumes l: "level_all (\<lambda>p x. oprice (m x) = p) lv" and ne: "levels_nonempty lv"
  shows "(\<lambda>x. oprice (m x)) ` set (queue_addrs lv) = fst ` set lv"
proof (intro equalityI subsetI)
  fix p assume "p \<in> (\<lambda>x. oprice (m x)) ` set (queue_addrs lv)"
  then obtain x where x: "x \<in> set (queue_addrs lv)" "p = oprice (m x)" by blast
  from in_queue_level [OF x(1)] obtain k c where kc: "(k, c) \<in> set lv" "x \<in> set c" by blast
  with l have "oprice (m x) = k" by (auto simp: level_all_def)
  with kc(1) x(2) show "p \<in> fst ` set lv" by force
next
  fix p assume "p \<in> fst ` set lv"
  then obtain c where kc: "(p, c) \<in> set lv" by force
  with ne have "c \<noteq> []" by (auto simp: levels_nonempty_def)
  then have h: "hd c \<in> set c" by simp
  with kc l have "oprice (m (hd c)) = p" by (auto simp: level_all_def)
  moreover from kc h have "hd c \<in> set (queue_addrs lv)"
    unfolding queue_addrs_def set_concat by force
  ultimately show "p \<in> (\<lambda>x. oprice (m x)) ` set (queue_addrs lv)" by force
qed

lemma worst_ask:
  assumes w: "well_formed s" and ne: "asks s \<noteq> []"
  shows "fst (last (asks s)) = Max ((\<lambda>x. oprice (mem s x)) ` set (queue_addrs (asks s)))"
proof -
  from w have "level_all (\<lambda>p x. oside (mem s x) = Sell \<and> oprice (mem s x) = p) (asks s)"
    and l: "levels_nonempty (asks s)" and srt: "sorted_wrt (<) (map fst (asks s))"
    by (simp_all add: well_formed_def index_ok_def index_ok_on_def)
  then have "level_all (\<lambda>p x. oprice (mem s x) = p) (asks s)" by (simp add: level_all_def)
  from level_keys_are_prices [OF this l] sorted_lt_last_Max [OF srt ne] show ?thesis by simp
qed

lemma worst_bid:
  assumes w: "well_formed s" and ne: "bids s \<noteq> []"
  shows "fst (last (bids s)) = Min ((\<lambda>x. oprice (mem s x)) ` set (queue_addrs (bids s)))"
proof -
  from w have "level_all (\<lambda>p x. oside (mem s x) = Buy \<and> oprice (mem s x) = p) (bids s)"
    and l: "levels_nonempty (bids s)" and srt: "sorted_wrt (>) (map fst (bids s))"
    by (simp_all add: well_formed_def index_ok_def index_ok_on_def)
  then have "level_all (\<lambda>p x. oprice (mem s x) = p) (bids s)" by (simp add: level_all_def)
  from level_keys_are_prices [OF this l] sorted_gt_last_Min [OF srt ne] show ?thesis by simp
qed

text \<open>The order at \<open>a\<close> rewritten as a GoodTillCancel order at price \<open>p\<close>.\<close>

definition as_GoodTillCancel :: "addr \<Rightarrow> Price \<Rightarrow> OrderBook \<Rightarrow> OrderBook" where
  "as_GoodTillCancel a p s = s\<lparr>mem := (mem s)(a := (mem s a)\<lparr>otype := GoodTillCancel, oprice := p\<rparr>)\<rparr>"

lemma AddOrder_GoodTillCancel:
  assumes "otype (mem s a) = GoodTillCancel" and "\<not> orders_contains (orders s) (oid (mem s a))"
  shows "AddOrder a s = MatchOrders (insert_order a s)"
  using assms by (simp add: AddOrder_def convert_market_def Let_def)

lemma AddOrder_Market:
  assumes t: "otype (mem s a) = Market" and n: "\<not> orders_contains (orders s) (oid (mem s a))"
  shows "oside (mem s a) = Buy \<Longrightarrow> asks s = [] \<Longrightarrow> AddOrder a s = Inr ([], s)"
    and "oside (mem s a) = Sell \<Longrightarrow> bids s = [] \<Longrightarrow> AddOrder a s = Inr ([], s)"
    and "oside (mem s a) = Buy \<Longrightarrow> asks s \<noteq> [] \<Longrightarrow>
           AddOrder a s = MatchOrders (insert_order a (as_GoodTillCancel a (fst (last (asks s))) s))"
    and "oside (mem s a) = Sell \<Longrightarrow> bids s \<noteq> [] \<Longrightarrow>
           AddOrder a s = MatchOrders (insert_order a (as_GoodTillCancel a (fst (last (bids s))) s))"
  using t n
  by (simp_all add: AddOrder_def convert_market_def Let_def ToGoodTillCancel_def
        as_GoodTillCancel_def)

text \<open>
  Claim C6. For an \<open>AddOrder\<close> of a Market order whose id is not live, on a well-formed
  book: with the opposite side empty the call returns the empty trade list and the book
  as it was. Otherwise the call is the \<open>AddOrder\<close> of the same order as a GoodTillCancel
  order priced at the worst resting price of the opposite side (the highest ask price for
  a buy, the lowest bid price for a sell), which is the insertion followed by the
  matching loop.
\<close>

theorem Market_order_conversion:
  assumes w: "well_formed s" and t: "otype (mem s a) = Market"
    and n: "\<not> orders_contains (orders s) (oid (mem s a))"
  shows "(oside (mem s a) = Buy \<and> asks s = [] \<longrightarrow> AddOrder a s = Inr ([], s)) \<and>
         (oside (mem s a) = Sell \<and> bids s = [] \<longrightarrow> AddOrder a s = Inr ([], s)) \<and>
         (oside (mem s a) = Buy \<and> asks s \<noteq> [] \<longrightarrow>
            (let worst = Max ((\<lambda>x. oprice (mem s x)) ` set (queue_addrs (asks s)));
                 s1 = as_GoodTillCancel a worst s
             in AddOrder a s = AddOrder a s1 \<and>
                AddOrder a s1 = MatchOrders (insert_order a s1))) \<and>
         (oside (mem s a) = Sell \<and> bids s \<noteq> [] \<longrightarrow>
            (let worst = Min ((\<lambda>x. oprice (mem s x)) ` set (queue_addrs (bids s)));
                 s1 = as_GoodTillCancel a worst s
             in AddOrder a s = AddOrder a s1 \<and>
                AddOrder a s1 = MatchOrders (insert_order a s1)))"
proof (intro conjI impI)
  assume "oside (mem s a) = Buy \<and> asks s = []"
  then show "AddOrder a s = Inr ([], s)" using AddOrder_Market(1) [OF t n] by simp
next
  assume "oside (mem s a) = Sell \<and> bids s = []"
  then show "AddOrder a s = Inr ([], s)" using AddOrder_Market(2) [OF t n] by simp
next
  assume h: "oside (mem s a) = Buy \<and> asks s \<noteq> []"
  let ?w = "Max ((\<lambda>x. oprice (mem s x)) ` set (queue_addrs (asks s)))"
  let ?s1 = "as_GoodTillCancel a ?w s"
  from h worst_ask [OF w] have e: "fst (last (asks s)) = ?w" by simp
  have g: "otype (mem ?s1 a) = GoodTillCancel"
    "\<not> orders_contains (orders ?s1) (oid (mem ?s1 a))"
    using n by (simp_all add: as_GoodTillCancel_def)
  from h AddOrder_Market(3) [OF t n] have "AddOrder a s = MatchOrders (insert_order a ?s1)"
    by (simp add: e)
  with AddOrder_GoodTillCancel [OF g]
  show "let worst = ?w; s1 = as_GoodTillCancel a worst s
        in AddOrder a s = AddOrder a s1 \<and> AddOrder a s1 = MatchOrders (insert_order a s1)"
    by (simp add: Let_def)
next
  assume h: "oside (mem s a) = Sell \<and> bids s \<noteq> []"
  let ?w = "Min ((\<lambda>x. oprice (mem s x)) ` set (queue_addrs (bids s)))"
  let ?s1 = "as_GoodTillCancel a ?w s"
  from h worst_bid [OF w] have e: "fst (last (bids s)) = ?w" by simp
  have g: "otype (mem ?s1 a) = GoodTillCancel"
    "\<not> orders_contains (orders ?s1) (oid (mem ?s1 a))"
    using n by (simp_all add: as_GoodTillCancel_def)
  from h AddOrder_Market(4) [OF t n] have "AddOrder a s = MatchOrders (insert_order a ?s1)"
    by (simp add: e)
  with AddOrder_GoodTillCancel [OF g]
  show "let worst = ?w; s1 = as_GoodTillCancel a worst s
        in AddOrder a s = AddOrder a s1 \<and> AddOrder a s1 = MatchOrders (insert_order a s1)"
    by (simp add: Let_def)
qed

text \<open>Asks resting at 99 (id 1, quantity 4) and 101 (id 2, quantity 6), and a new Market
  buy of 20 (id 3) at address 3; a Market order is built with some price, here 0.\<close>

definition book_two_asks :: OrderBook where
  "book_two_asks =
     \<lparr>mem = (\<lambda>a. empty_order)(1 := Order_new GoodTillCancel 1 Sell 99 4,
                                2 := Order_new GoodTillCancel 2 Sell 101 6,
                                3 := Order_new Market 3 Buy 0 20),
      bids = [], asks = [(99, [1]), (101, [2])], orders = [(1, 1), (2, 2)],
      ldata = (\<lambda>p. None)(99 \<mapsto> \<lparr>ld_count = 1, ld_quantity = 4\<rparr>,
                           101 \<mapsto> \<lparr>ld_count = 1, ld_quantity = 6\<rparr>)\<rparr>"

lemma wf_book_two_asks: "well_formed book_two_asks"
  by (simp add: well_formed_defs book_two_asks_def Order_new_def)

theorem Market_order_conversion_witness:
  "well_formed book_two_asks \<and> otype (mem book_two_asks 3) = Market \<and>
   \<not> orders_contains (orders book_two_asks) (oid (mem book_two_asks 3)) \<and>
   oside (mem book_two_asks 3) = Buy \<and> asks book_two_asks \<noteq> [] \<and>
   Max ((\<lambda>x. oprice (mem book_two_asks x)) ` set (queue_addrs (asks book_two_asks))) = 101 \<and>
   AddOrder 3 book_two_asks = AddOrder 3 (as_GoodTillCancel 3 101 book_two_asks) \<and>
   AddOrder 3 (as_GoodTillCancel 3 101 book_two_asks) =
     MatchOrders (insert_order 3 (as_GoodTillCancel 3 101 book_two_asks)) \<and>
   (\<exists>ts s'. AddOrder 3 book_two_asks = Inr (ts, s') \<and>
      map (\<lambda>t. (price (ask t), quantity (ask t))) ts = [(99, 4), (101, 6)] \<and>
      bids s' = [(101, [3])] \<and> otype (mem s' 3) = GoodTillCancel \<and>
      remainingQuantity (mem s' 3) = 10)"
proof -
  have f: "otype (mem book_two_asks 3) = Market"
    "\<not> orders_contains (orders book_two_asks) (oid (mem book_two_asks 3))"
    "oside (mem book_two_asks 3) = Buy" "asks book_two_asks \<noteq> []"
    by (simp_all add: book_two_asks_def Order_new_def orders_contains_def)
  have m: "Max ((\<lambda>x. oprice (mem book_two_asks x)) ` set (queue_addrs (asks book_two_asks))) = 101"
    by (simp add: book_two_asks_def Order_new_def)
  from Market_order_conversion [OF wf_book_two_asks f(1,2)] f(3,4)
  have "AddOrder 3 book_two_asks = AddOrder 3 (as_GoodTillCancel 3 101 book_two_asks) \<and>
        AddOrder 3 (as_GoodTillCancel 3 101 book_two_asks) =
          MatchOrders (insert_order 3 (as_GoodTillCancel 3 101 book_two_asks))"
    by (simp add: Let_def m)
  moreover have "\<exists>ts s'. AddOrder 3 book_two_asks = Inr (ts, s') \<and>
      map (\<lambda>t. (price (ask t), quantity (ask t))) ts = [(99, 4), (101, 6)] \<and>
      bids s' = [(101, [3])] \<and> otype (mem s' 3) = GoodTillCancel \<and>
      remainingQuantity (mem s' 3) = 10"
    by (simp add: eval_defs book_two_asks_def)
  ultimately show ?thesis using wf_book_two_asks f m by blast
qed


section \<open>Execution price\<close>

text \<open>A consistent book, possibly crossed: what \<open>AddOrder\<close> hands to \<open>MatchOrders\<close>
  after inserting an order into a well-formed book.\<close>

definition consistent :: "OrderBook \<Rightarrow> bool" where
  "consistent s = (index_ok s \<and> levels_nonempty (bids s) \<and> levels_nonempty (asks s))"

lemma well_formed_consistent: "well_formed s \<Longrightarrow> consistent s"
  by (simp add: well_formed_def consistent_def)

lemma insert_order_consistent:
  assumes "consistent s" and "\<not> orders_contains (orders s) (oid (mem s a))"
  shows "consistent (insert_order a s)"
  using assms insert_order_index_ok [of s a] insert_order_nonempty [of s a]
  by (simp add: consistent_def)

text \<open>The price of the order that was resting, for a trade \<open>t\<close> returned by
  \<open>AddOrder a s\<close>: the order of the trade that is not the incoming one, looked up in the
  book before the call.\<close>

definition resting_price :: "OrderBook \<Rightarrow> addr \<Rightarrow> Trade \<Rightarrow> Price option" where
  "resting_price s a t =
     (let rid = (if orderId (bid t) = oid (mem s a) then orderId (ask t) else orderId (bid t))
      in map_option (\<lambda>x. oprice (mem s x)) (map_of (orders s) rid))"

text \<open>
  Claim C3 as stated fails. A buy of 10 rests at 100 (id 1); a sell of 5 at 99 (id 2)
  comes in. The one trade carries price 99 on both legs; the resting order's price is 100.
\<close>

theorem execution_price_not_resting_price:
  "\<exists>t s'. AddOrder 2 (make_shared 2 (Order_new GoodTillCancel 2 Sell 99 5) book_one_bid) =
             Inr ([t], s') \<and>
     orderId (bid t) = 1 \<and> orderId (ask t) = 2 \<and>
     resting_price (make_shared 2 (Order_new GoodTillCancel 2 Sell 99 5) book_one_bid) 2 t
       = Some 100 \<and>
     price (bid t) = 99 \<and> price (ask t) = 99"
  by (simp add: eval_defs book_one_bid_def resting_price_def)

lemma index_ok_ask_head:
  assumes ok: "index_ok x" and hn: "heads_nonempty x"
  shows "hd (snd (hd (asks x))) \<in> set (queue_addrs (asks x))"
    and "oprice (mem x (hd (snd (hd (asks x))))) = fst (hd (asks x))"
    and "hd (snd (hd (bids x))) \<in> set (queue_addrs (bids x))"
    and "oprice (mem x (hd (snd (hd (bids x))))) = fst (hd (bids x))"
proof -
  from hn obtain bp b bq brest ap a aq arest where
    bs: "bids x = (bp, b # bq) # brest" and as: "asks x = (ap, a # aq) # arest"
    by (rule heads_shape)
  from ok have "level_all (\<lambda>p a. oside (mem x a) = Buy \<and> oprice (mem x a) = p) (bids x)"
    "level_all (\<lambda>p a. oside (mem x a) = Sell \<and> oprice (mem x a) = p) (asks x)"
    by (simp_all add: index_ok_def index_ok_on_def)
  then show "hd (snd (hd (asks x))) \<in> set (queue_addrs (asks x))"
    and "oprice (mem x (hd (snd (hd (asks x))))) = fst (hd (asks x))"
    and "hd (snd (hd (bids x))) \<in> set (queue_addrs (bids x))"
    and "oprice (mem x (hd (snd (hd (bids x))))) = fst (hd (bids x))"
    by (simp_all add: bs as)
qed

text \<open>What the amended claim says of one trade, in the book \<open>s\<close> the loop started from:
  both legs carry one price; the ask leg names a resting ask order and the price is that
  order's price; the bid leg names a resting bid order.\<close>

definition at_ask_price :: "OrderBook \<Rightarrow> Trade \<Rightarrow> bool" where
  "at_ask_price s t =
     (price (bid t) = price (ask t) \<and>
      (\<exists>x \<in> set (queue_addrs (asks s)).
          orderId (ask t) = oid (mem s x) \<and> price (ask t) = oprice (mem s x)) \<and>
      (\<exists>y \<in> set (queue_addrs (bids s)). orderId (bid t) = oid (mem s y)))"

lemma match_one_at_ask_price:
  assumes sh: "shrinks s x" and ok: "index_ok x" and hn: "heads_nonempty x"
    and m1: "match_one x = Inr (x1, t)"
  shows "at_ask_price s t"
proof -
  let ?a = "hd (snd (hd (asks x)))" and ?b = "hd (snd (hd (bids x)))"
  note h = index_ok_ask_head [OF ok hn]
  note t = match_one_trade [OF m1]
  have st: "oid (mem x y) = oid (mem s y)" "oprice (mem x y) = oprice (mem s y)" for y
    using shrinksD(1) [OF sh] by (simp_all add: same_static_def)
  have "set (queue_addrs (asks x)) \<subseteq> set (queue_addrs (asks s))"
    unfolding entries_addrs [symmetric] by (rule image_mono [OF shrinksD(5) [OF sh]])
  with h(1) have a: "?a \<in> set (queue_addrs (asks s))" by blast
  have "set (queue_addrs (bids x)) \<subseteq> set (queue_addrs (bids s))"
    unfolding entries_addrs [symmetric] by (rule image_mono [OF shrinksD(4) [OF sh]])
  with h(3) have b: "?b \<in> set (queue_addrs (bids s))" by blast
  have 1: "price (bid t) = price (ask t)" by (subst (1 2) t) simp
  have 2: "orderId (ask t) = oid (mem s ?a)" by (subst t) (simp add: st)
  have 3: "price (ask t) = oprice (mem s ?a)" by (subst t) (simp add: h(2) [symmetric] st)
  have 4: "orderId (bid t) = oid (mem s ?b)" by (subst t) (simp add: st)
  from 1 2 3 4 a b show ?thesis unfolding at_ask_price_def by blast
qed

text \<open>
  Claim C3 as amended. Every trade that the matching loop emits from a consistent book
  carries on both legs the price of the ask-side order of the trade, whichever of the
  two orders was resting.
\<close>

theorem execution_price_is_ask_price:
  assumes c: "consistent s" and m: "MatchOrders s = Inr (ts, s')"
  shows "\<forall>t \<in> set ts. at_ask_price s t"
proof -
  from c have ok: "index_ok s" and lb: "levels_nonempty (bids s)"
    and la: "levels_nonempty (asks s)" by (simp_all add: consistent_def)
  let ?K = "\<lambda>x ts. shrinks s x \<and> (\<forall>t \<in> set ts. at_ask_price s t)"
  have "\<exists>s1 ts1. MatchOrders_loop s [] = Inr (s1, ts1) \<and> ?K s1 ts1 \<and>
           index_ok s1 \<and> shrinks s s1 \<and> levels_nonempty (bids s1) \<and>
           levels_nonempty (asks s1) \<and> uncrossed s1"
  proof (rule MatchOrders_loop_inv [OF ok lb la, where K = ?K])
    show "?K s []" by simp
  next
    fix x ts x1 t
    assume okx: "index_ok x" and hn: "heads_nonempty x" and K: "?K x ts"
      and m1: "match_one x = Inr (x1, t)"
    from K have sh: "shrinks s x" and all: "\<forall>t \<in> set ts. at_ask_price s t" by simp_all
    have "shrinks s x1" by (rule shrinks_trans [OF sh match_one_shrinks [OF okx hn m1]])
    moreover have "at_ask_price s t" by (rule match_one_at_ask_price [OF sh okx hn m1])
    ultimately show "?K x1 (ts @ [t])" using all by simp
  next
    fix x ts
    assume okx: "index_ok x" and nb: "bids x \<noteq> []" and na: "asks x \<noteq> []" and K: "?K x ts"
    from K have sh: "shrinks s x" and all: "\<forall>t \<in> set ts. at_ask_price s t" by simp_all
    have "shrinks s (erase_empty (fst (hd (bids x))) (fst (hd (asks x))) x)"
      by (rule shrinks_trans [OF sh erase_empty_shrinks [OF okx nb na]])
    with all show "?K (erase_empty (fst (hd (bids x))) (fst (hd (asks x))) x) ts" by simp
  qed
  then obtain s1 ts1 where l: "MatchOrders_loop s [] = Inr (s1, ts1)"
    and a: "\<forall>t \<in> set ts1. at_ask_price s t" by blast
  from m l have "ts = ts1" by (auto simp: MatchOrders_def split: sum.splits)
  with a show ?thesis by simp
qed

text \<open>The book of \<open>main\<close> inside the second \<open>AddOrder\<close>, after the insertion: the buy of
  10 at 100 (id 1) rests, the sell of 5 at 99 (id 2) has come in.\<close>

definition book_main_crossed :: OrderBook where
  "book_main_crossed =
     insert_order 2 (make_shared 2 (Order_new GoodTillCancel 2 Sell 99 5) book_one_bid)"

lemma consistent_book_main_crossed: "consistent book_main_crossed"
  unfolding book_main_crossed_def
proof (rule insert_order_consistent)
  have "2 \<notin> set (book_addrs book_one_bid)" by (simp add: book_addrs_def book_one_bid_def)
  from make_shared_wf [OF wf_book_one_bid this]
  show "consistent (make_shared 2 (Order_new GoodTillCancel 2 Sell 99 5) book_one_bid)"
    by (rule well_formed_consistent)
  show "\<not> orders_contains (orders (make_shared 2 (Order_new GoodTillCancel 2 Sell 99 5) book_one_bid))
          (oid (mem (make_shared 2 (Order_new GoodTillCancel 2 Sell 99 5) book_one_bid) 2))"
    by (simp add: make_shared_def book_one_bid_def orders_contains_def Order_new_def)
qed

theorem execution_price_is_ask_price_witness:
  "consistent book_main_crossed \<and>
   (\<exists>t s'. MatchOrders book_main_crossed = Inr ([t], s') \<and> at_ask_price book_main_crossed t \<and>
      orderId (bid t) = 1 \<and> orderId (ask t) = 2 \<and> price (bid t) = 99 \<and> price (ask t) = 99 \<and>
      oprice (mem book_main_crossed 2) = 99)"
proof -
  have "\<exists>t s'. MatchOrders book_main_crossed = Inr ([t], s') \<and>
      orderId (bid t) = 1 \<and> orderId (ask t) = 2 \<and> price (bid t) = 99 \<and> price (ask t) = 99 \<and>
      oprice (mem book_main_crossed 2) = 99"
    by (simp add: eval_defs book_main_crossed_def book_one_bid_def)
  then obtain t s' where r: "MatchOrders book_main_crossed = Inr ([t], s')"
    "orderId (bid t) = 1" "orderId (ask t) = 2" "price (bid t) = 99" "price (ask t) = 99"
    "oprice (mem book_main_crossed 2) = 99"
    by blast
  from execution_price_is_ask_price [OF consistent_book_main_crossed r(1)]
  have "at_ask_price book_main_crossed t" by simp
  with r consistent_book_main_crossed show ?thesis by blast
qed


section \<open>Level snapshots\<close>

text \<open>The total remaining quantity of the orders of one queue, in \<open>uint64_t\<close>.\<close>

definition queue_quantity :: "(addr \<Rightarrow> Order) \<Rightarrow> addr list \<Rightarrow> 64 word" where
  "queue_quantity m q = sum_list (map (\<lambda>x. ucast (remainingQuantity (m x))) q)"

text \<open>The live orders of one side: the entries of the id-lookup with that side.\<close>

definition live_orders :: "Side \<Rightarrow> OrderBook \<Rightarrow> addr list" where
  "live_orders sd s = filter (\<lambda>x. oside (mem s x) = sd) (map snd (orders s))"

text \<open>The snapshot as the specification words it, for comparison: the first \<open>depth\<close>
  levels, each with the quantity held by the level aggregate at its price.\<close>

definition aggregate_snapshot ::
  "nat \<Rightarrow> (Price \<Rightarrow> LevelData option) \<Rightarrow> levels \<Rightarrow> (Price \<times> 64 word) list" where
  "aggregate_snapshot depth d lv =
     take depth (map (\<lambda>kv. (fst kv, case d (fst kv) of None \<Rightarrow> 0 | Some ld \<Rightarrow> ld_quantity ld)) lv)"

text \<open>
  Claim C7 as stated fails: the snapshot is not computed from the level aggregate. In
  \<open>book_same_price\<close>, reached by two calls of \<open>AddOrder\<close>, \<open>GetAskLevels\<close> with depth 5
  reports 5 at price 100, which is what rests there, and the level aggregate has nothing
  at 100.
\<close>

theorem snapshot_not_from_aggregate:
  "run 0 [CallAdd GoodTillCancel 1 Buy 100 5, CallAdd GoodTillCancel 2 Sell 100 10] OrderBook_new
     = Inr book_same_price \<and>
   GetAskLevels 5 5 book_same_price = Inr [(100, 5)] \<and>
   aggregate_snapshot 5 (ldata book_same_price) (asks book_same_price) = [(100, 0)]"
  using book_same_price_reached
  by (simp add: GetAskLevels_def vector_reserve_def vector_max_size_def aggregate_snapshot_def
      book_same_price_def Order_new_def)

lemma foldl_add_sum_list:
  "foldl (\<lambda>qty x. qty + f x) z xs = z + sum_list (map f xs)" for z :: "64 word"
  by (induction xs arbitrary: z) (simp_all add: add.assoc)

lemma level_snapshot_eq:
  "level_snapshot depth m lv out =
     out @ take (unat depth - length out) (map (\<lambda>kv. (fst kv, queue_quantity m (snd kv))) lv)"
proof (induction lv arbitrary: out)
  case Nil
  then show ?case by simp
next
  case (Cons kv lv)
  obtain p q where kv: "kv = (p, q)" by (cases kv)
  show ?case
  proof (cases "unat depth \<le> length out")
    case True
    then show ?thesis by (simp add: kv)
  next
    case False
    then have d: "unat depth - length out = Suc (unat depth - Suc (length out))" by simp
    from False show ?thesis
      by (simp add: kv Cons.IH d queue_quantity_def foldl_add_sum_list)
  qed
qed

text \<open>The three ways out of \<open>GetBidLevels\<close> and \<open>GetAskLevels\<close>.\<close>

lemma GetLevels_length_error:
  assumes "vector_max_size < unat depth"
  shows "GetBidLevels avail depth s = Inl LengthError"
    and "GetAskLevels avail depth s = Inl LengthError"
  using assms by (simp_all add: GetBidLevels_def GetAskLevels_def vector_reserve_def)

lemma GetLevels_bad_alloc:
  assumes "unat depth \<le> vector_max_size" and "avail < unat depth"
  shows "GetBidLevels avail depth s = Inl BadAlloc"
    and "GetAskLevels avail depth s = Inl BadAlloc"
  using assms by (simp_all add: GetBidLevels_def GetAskLevels_def vector_reserve_def)

lemma GetLevels_eq:
  assumes "unat depth \<le> vector_max_size" and "unat depth \<le> avail"
  shows "GetBidLevels avail depth s =
      Inr (take (unat depth) (map (\<lambda>kv. (fst kv, queue_quantity (mem s) (snd kv))) (bids s)))"
    and "GetAskLevels avail depth s =
      Inr (take (unat depth) (map (\<lambda>kv. (fst kv, queue_quantity (mem s) (snd kv))) (asks s)))"
  using assms
  by (simp_all add: GetBidLevels_def GetAskLevels_def vector_reserve_def level_snapshot_eq)

lemma sum_list_queue_quantity:
  "sum_list (map (\<lambda>kv. queue_quantity m (snd kv)) lv) = queue_quantity m (queue_addrs lv)"
proof (induction lv)
  case Nil
  then show ?case by (simp add: queue_quantity_def)
next
  case (Cons kv lv)
  obtain p q where kv: "kv = (p, q)" by (cases kv)
  from Cons show ?case by (simp add: queue_quantity_def kv)
qed

lemma sum_list_mset_cong:
  fixes g :: "addr \<Rightarrow> 64 word"
  assumes "mset xs = mset ys"
  shows "sum_list (map g xs) = sum_list (map g ys)"
proof -
  have "sum_list (map g xs) = sum_mset (image_mset g (mset xs))"
    by (simp add: sum_mset_sum_list [symmetric])
  also have "\<dots> = sum_mset (image_mset g (mset ys))" by (simp only: assms)
  also have "\<dots> = sum_list (map g ys)" by (simp add: sum_mset_sum_list [symmetric])
  finally show ?thesis .
qed

lemma index_ok_live_orders:
  assumes ok: "index_ok s"
  shows "mset (live_orders Buy s) = mset (queue_addrs (bids s))"
    and "mset (live_orders Sell s) = mset (queue_addrs (asks s))"
proof -
  from ok have d: "distinct (queue_addrs (bids s) @ queue_addrs (asks s))"
    and dk: "distinct (map fst (orders s))"
    and g: "set (orders s) = (\<lambda>a. (oid (mem s a), a)) ` set (book_addrs s)"
    and lb: "level_all (\<lambda>p a. oside (mem s a) = Buy \<and> oprice (mem s a) = p) (bids s)"
    and la: "level_all (\<lambda>p a. oside (mem s a) = Sell \<and> oprice (mem s a) = p) (asks s)"
    by (simp_all add: index_ok_def index_ok_on_def book_addrs_def)
  have inj: "inj_on snd (set (orders s))"
    unfolding g by (rule inj_onI) auto
  from dk have "distinct (orders s)" by (rule distinct_map [THEN iffD1, THEN conjunct1])
  with inj have ds: "distinct (map snd (orders s))" by (simp add: distinct_map)
  have sb: "\<And>x. x \<in> set (queue_addrs (bids s)) \<Longrightarrow> oside (mem s x) = Buy"
    using lb in_queue_level by (fastforce simp: level_all_def)
  have sa: "\<And>x. x \<in> set (queue_addrs (asks s)) \<Longrightarrow> oside (mem s x) = Sell"
    using la in_queue_level by (fastforce simp: level_all_def)
  have addrs: "set (map snd (orders s)) = set (queue_addrs (bids s)) \<union> set (queue_addrs (asks s))"
    using index_ok_orders_addrs [OF ok] by (simp add: book_addrs_def)
  have "set (live_orders Buy s) = set (queue_addrs (bids s))"
    unfolding live_orders_def set_filter addrs using sb sa by auto
  moreover have "distinct (live_orders Buy s)" "distinct (queue_addrs (bids s))"
    using ds d by (simp_all add: live_orders_def)
  ultimately show "mset (live_orders Buy s) = mset (queue_addrs (bids s))"
    by (simp add: set_eq_iff_mset_eq_distinct)
  have "set (live_orders Sell s) = set (queue_addrs (asks s))"
    unfolding live_orders_def set_filter addrs using sb sa by auto
  moreover have "distinct (live_orders Sell s)" "distinct (queue_addrs (asks s))"
    using ds d by (simp_all add: live_orders_def)
  ultimately show "mset (live_orders Sell s) = mset (queue_addrs (asks s))"
    by (simp add: set_eq_iff_mset_eq_distinct)
qed

lemma map_fst_snapshot:
  "map fst (take n (map (\<lambda>kv. (fst kv, f (snd kv))) lv)) = take n (map fst lv)"
  by (simp add: take_map comp_def)

lemma snapshot_sum:
  assumes ok: "index_ok s" and n: "length lv \<le> n"
    and ms: "mset (live_orders sd s) = mset (queue_addrs lv)"
  shows "sum_list (map snd (take n (map (\<lambda>kv. (fst kv, queue_quantity (mem s) (snd kv))) lv))) =
         queue_quantity (mem s) (live_orders sd s)"
proof -
  from n have "sum_list (map snd (take n (map (\<lambda>kv. (fst kv, queue_quantity (mem s) (snd kv))) lv))) =
      sum_list (map (\<lambda>kv. queue_quantity (mem s) (snd kv)) lv)"
    by (simp add: comp_def)
  also have "\<dots> = queue_quantity (mem s) (queue_addrs lv)"
    by (rule sum_list_queue_quantity)
  also have "\<dots> = queue_quantity (mem s) (live_orders sd s)"
    unfolding queue_quantity_def by (rule sum_list_mset_cong [OF ms [symmetric]])
  finally show ?thesis .
qed

text \<open>
  Claim C7 as amended. \<open>GetBidLevels\<close> and \<open>GetAskLevels\<close> first reserve room for
  \<open>depth\<close> entries: a \<open>depth\<close> above \<open>max_size()\<close> ends the call with
  \<open>std::length_error\<close>, and one for which the allocator has no storage ends it with
  \<open>std::bad_alloc\<close>. Otherwise, on a well-formed book, they return the first \<open>depth\<close>
  price levels of their side, bids in descending and asks in ascending price order, each
  with its price and the total remaining quantity of the orders queued there, summed in
  \<open>uint64_t\<close> by walking the queue; the level aggregate is not read. When \<open>depth\<close> covers
  all levels of the side, the quantities returned sum to the total remaining quantity of
  the live orders of that side.
\<close>

theorem snapshot_from_queues:
  assumes w: "well_formed s"
  shows "(vector_max_size < unat depth \<longrightarrow>
            GetBidLevels avail depth s = Inl LengthError \<and>
            GetAskLevels avail depth s = Inl LengthError) \<and>
         (unat depth \<le> vector_max_size \<and> avail < unat depth \<longrightarrow>
            GetBidLevels avail depth s = Inl BadAlloc \<and>
            GetAskLevels avail depth s = Inl BadAlloc) \<and>
         (unat depth \<le> vector_max_size \<and> unat depth \<le> avail \<longrightarrow>
            (\<exists>bl al.
               GetBidLevels avail depth s = Inr bl \<and> GetAskLevels avail depth s = Inr al \<and>
               bl = take (unat depth)
                      (map (\<lambda>kv. (fst kv, queue_quantity (mem s) (snd kv))) (bids s)) \<and>
               al = take (unat depth)
                      (map (\<lambda>kv. (fst kv, queue_quantity (mem s) (snd kv))) (asks s)) \<and>
               sorted_wrt (>) (map fst bl) \<and> sorted_wrt (<) (map fst al) \<and>
               (length (bids s) \<le> unat depth \<longrightarrow>
                  sum_list (map snd bl) = queue_quantity (mem s) (live_orders Buy s)) \<and>
               (length (asks s) \<le> unat depth \<longrightarrow>
                  sum_list (map snd al) = queue_quantity (mem s) (live_orders Sell s))))"
proof (intro conjI impI)
  assume "vector_max_size < unat depth"
  then show "GetBidLevels avail depth s = Inl LengthError"
    and "GetAskLevels avail depth s = Inl LengthError"
    by (rule GetLevels_length_error)+
next
  assume "unat depth \<le> vector_max_size \<and> avail < unat depth"
  then have "unat depth \<le> vector_max_size" "avail < unat depth" by simp_all
  then show "GetBidLevels avail depth s = Inl BadAlloc"
    and "GetAskLevels avail depth s = Inl BadAlloc"
    by (rule GetLevels_bad_alloc)+
next
  assume "unat depth \<le> vector_max_size \<and> unat depth \<le> avail"
  then have r: "unat depth \<le> vector_max_size" "unat depth \<le> avail" by simp_all
  from w have ok: "index_ok s" by (simp add: well_formed_def)
  then have sb: "sorted_wrt (>) (map fst (bids s))" and sa: "sorted_wrt (<) (map fst (asks s))"
    by (simp_all add: index_ok_def index_ok_on_def)
  let ?bl = "take (unat depth) (map (\<lambda>kv. (fst kv, queue_quantity (mem s) (snd kv))) (bids s))"
  let ?al = "take (unat depth) (map (\<lambda>kv. (fst kv, queue_quantity (mem s) (snd kv))) (asks s))"
  have 1: "GetBidLevels avail depth s = Inr ?bl" by (rule GetLevels_eq [OF r])
  have 2: "GetAskLevels avail depth s = Inr ?al" by (rule GetLevels_eq [OF r])
  have 3: "sorted_wrt (>) (map fst ?bl)"
    unfolding map_fst_snapshot using sb by (rule sorted_wrt_take)
  have 4: "sorted_wrt (<) (map fst ?al)"
    unfolding map_fst_snapshot using sa by (rule sorted_wrt_take)
  have 5: "sum_list (map snd ?bl) = queue_quantity (mem s) (live_orders Buy s)"
    if "length (bids s) \<le> unat depth"
    by (rule snapshot_sum [OF ok that index_ok_live_orders(1) [OF ok]])
  have 6: "sum_list (map snd ?al) = queue_quantity (mem s) (live_orders Sell s)"
    if "length (asks s) \<le> unat depth"
    by (rule snapshot_sum [OF ok that index_ok_live_orders(2) [OF ok]])
  from 1 2 3 4 5 6
  show "\<exists>bl al.
               GetBidLevels avail depth s = Inr bl \<and> GetAskLevels avail depth s = Inr al \<and>
               bl = take (unat depth)
                      (map (\<lambda>kv. (fst kv, queue_quantity (mem s) (snd kv))) (bids s)) \<and>
               al = take (unat depth)
                      (map (\<lambda>kv. (fst kv, queue_quantity (mem s) (snd kv))) (asks s)) \<and>
               sorted_wrt (>) (map fst bl) \<and> sorted_wrt (<) (map fst al) \<and>
               (length (bids s) \<le> unat depth \<longrightarrow>
                  sum_list (map snd bl) = queue_quantity (mem s) (live_orders Buy s)) \<and>
               (length (asks s) \<le> unat depth \<longrightarrow>
                  sum_list (map snd al) = queue_quantity (mem s) (live_orders Sell s))"
    by blast
qed

lemma book_two_asks_levels:
  "GetAskLevels 8 1 book_two_asks = Inr [(99, 4)]"
  "GetAskLevels 8 5 book_two_asks = Inr [(99, 4), (101, 6)]"
  "GetBidLevels 8 5 book_two_asks = Inr []"
  "live_orders Sell book_two_asks = [1, 2]" "length (asks book_two_asks) \<le> unat (5 :: 64 word)"
  "unat (5 :: 64 word) \<le> vector_max_size" "unat (5 :: 64 word) \<le> 8"
  "(8 :: nat) < unat (9 :: 64 word)" "unat (9 :: 64 word) \<le> vector_max_size"
  "vector_max_size < unat (18446744073709551615 :: 64 word)"
  by (simp_all add: GetAskLevels_def GetBidLevels_def vector_reserve_def vector_max_size_def
      book_two_asks_def Order_new_def live_orders_def)

theorem snapshot_from_queues_witness:
  "well_formed book_two_asks \<and>
   vector_max_size < unat (18446744073709551615 :: 64 word) \<and>
   GetAskLevels 8 18446744073709551615 book_two_asks = Inl LengthError \<and>
   unat (9 :: 64 word) \<le> vector_max_size \<and> (8 :: nat) < unat (9 :: 64 word) \<and>
   GetAskLevels 8 9 book_two_asks = Inl BadAlloc \<and>
   unat (5 :: 64 word) \<le> vector_max_size \<and> unat (5 :: 64 word) \<le> 8 \<and>
   length (asks book_two_asks) \<le> unat (5 :: 64 word) \<and>
   GetAskLevels 8 1 book_two_asks = Inr [(99, 4)] \<and>
   GetAskLevels 8 5 book_two_asks = Inr [(99, 4), (101, 6)] \<and>
   live_orders Sell book_two_asks = [1, 2] \<and>
   sum_list (map snd [(99 :: Price, 4 :: 64 word), (101, 6)]) =
     queue_quantity (mem book_two_asks) (live_orders Sell book_two_asks) \<and>
   queue_quantity (mem book_two_asks) (live_orders Sell book_two_asks) = 10"
proof -
  note l = book_two_asks_levels
  from snapshot_from_queues [OF wf_book_two_asks, of 18446744073709551615 8] l(10)
  have 1: "GetAskLevels 8 18446744073709551615 book_two_asks = Inl LengthError" by blast
  from snapshot_from_queues [OF wf_book_two_asks, of 9 8] l(8,9)
  have 2: "GetAskLevels 8 9 book_two_asks = Inl BadAlloc" by blast
  from snapshot_from_queues [OF wf_book_two_asks, of 5 8] l(5,6,7)
  obtain al where a: "GetAskLevels 8 5 book_two_asks = Inr al"
    and s: "sum_list (map snd al) = queue_quantity (mem book_two_asks) (live_orders Sell book_two_asks)"
    by blast
  from a l(2) have al: "al = [(99, 4), (101, 6)]" by simp
  from s have 3: "sum_list (map snd [(99 :: Price, 4 :: 64 word), (101, 6)]) =
     queue_quantity (mem book_two_asks) (live_orders Sell book_two_asks)"
    by (simp only: al)
  then have 4: "queue_quantity (mem book_two_asks) (live_orders Sell book_two_asks) = 10"
    by simp
  from wf_book_two_asks l 1 2 3 4 show ?thesis by blast
qed


section \<open>Price-time priority\<close>

subsection \<open>Queues hold their orders in order of arrival\<close>

text \<open>
  \<open>run\<close> allocates the orders at increasing addresses, so the address of an order is its
  arrival stamp. A book is \<open>arrival_ordered\<close> when every price level's queue lists its
  orders by increasing address, that is, earlier arrivals first.
\<close>

definition queues_ordered :: "levels \<Rightarrow> bool" where
  "queues_ordered lv = (\<forall>kv \<in> set lv. sorted_wrt (<) (snd kv))"

definition arrival_ordered :: "OrderBook \<Rightarrow> bool" where
  "arrival_ordered s = (queues_ordered (bids s) \<and> queues_ordered (asks s))"

lemma queues_ordered_simps [simp]:
  "queues_ordered [] = True"
  "queues_ordered ((p, q) # lv) = (sorted_wrt (<) q \<and> queues_ordered lv)"
  by (simp_all add: queues_ordered_def)

lemma queues_ordered_push:
  assumes "queues_ordered lv" and "\<forall>x \<in> set (queue_addrs lv). x < a"
  shows "queues_ordered (map_push_back cmp p a lv)"
  using assms
  by (induction cmp p a lv rule: map_push_back.induct) (auto simp: sorted_wrt_append)

lemma queues_ordered_pop:
  assumes "queues_ordered lv" and "lv \<noteq> []"
  shows "queues_ordered (pop_front_head lv)"
proof -
  from assms(2) obtain p q rest where lv: "lv = (p, q) # rest" by (cases lv) auto
  from assms(1) show ?thesis
    by (cases q) (simp_all add: lv pop_front_head_def)
qed

lemma queues_ordered_map_erase:
  "queues_ordered lv \<Longrightarrow> queues_ordered (map_erase p lv)"
  by (simp add: queues_ordered_def map_erase_def)

lemma sorted_wrt_remove1:
  "sorted_wrt P xs \<Longrightarrow> sorted_wrt P (remove1 a xs)"
proof (induction xs)
  case Nil
  then show ?case by simp
next
  case (Cons x xs)
  have "set (remove1 a xs) \<subseteq> set xs" by (rule set_remove1_subset)
  with Cons show ?case by auto
qed

lemma queues_ordered_level_erased:
  assumes q: "queues_ordered lv" and c: "map_of lv p = Some c"
  shows "queues_ordered (level_erased p a c lv)"
proof (cases "remove1 a c = []")
  case True
  with q show ?thesis by (simp add: level_erased_def queues_ordered_map_erase)
next
  case False
  from c have "(p, c) \<in> set lv" by (rule map_of_SomeD)
  with q have "sorted_wrt (<) c" by (auto simp: queues_ordered_def)
  then have "sorted_wrt (<) (remove1 a c)" by (rule sorted_wrt_remove1)
  with q False show ?thesis
    by (auto simp: level_erased_def queues_ordered_def map_assign_def)
qed

lemma match_one_arrival_ordered:
  assumes a: "arrival_ordered s" and h: "heads_nonempty s" and m: "match_one s = Inr (s1, t)"
  shows "arrival_ordered s1"
proof -
  from h have nb: "bids s \<noteq> []" and na: "asks s \<noteq> []" by (simp_all add: heads_nonempty_def)
  from a have qb: "queues_ordered (bids s)" and qa: "queues_ordered (asks s)"
    by (simp_all add: arrival_ordered_def)
  from m obtain m2 where
    b: "bids s1 = (if IsFilled (m2 (hd (snd (hd (bids s))))) then pop_front_head (bids s) else bids s)"
    and k: "asks s1 = (if IsFilled (m2 (hd (snd (hd (asks s))))) then pop_front_head (asks s) else asks s)"
    by (rule match_one_Inr)
  have "queues_ordered (bids s1)"
    unfolding b using qb queues_ordered_pop [OF qb nb] by simp
  moreover have "queues_ordered (asks s1)"
    unfolding k using qa queues_ordered_pop [OF qa na] by simp
  ultimately show ?thesis by (simp add: arrival_ordered_def)
qed

lemma erase_empty_arrival_ordered:
  assumes "arrival_ordered s"
  shows "arrival_ordered (erase_empty bp ap s)"
  using assms
  by (simp add: erase_empty_def Let_def arrival_ordered_def queues_ordered_map_erase)

lemma CancelOrderInternal_arrival_ordered:
  assumes ok: "index_ok s" and a: "arrival_ordered s" and c: "CancelOrderInternal i s = Inr s'"
  shows "arrival_ordered s'"
proof (cases "map_of (orders s) i")
  case None
  from CancelOrderInternal_unknown [OF None] c a show ?thesis by simp
next
  case (Some x)
  from a have qb: "queues_ordered (bids s)" and qa: "queues_ordered (asks s)"
    by (simp_all add: arrival_ordered_def)
  from ok Some show ?thesis
  proof (cases rule: CancelOrderInternal_known)
    case (1 q)
    from 1(4) c have s': "asks s' = level_erased (oprice (mem s x)) x q (asks s)" "bids s' = bids s"
      by auto
    from queues_ordered_level_erased [OF qa 1(2)] qb show ?thesis
      by (simp add: arrival_ordered_def s')
  next
    case (2 q)
    from 2(4) c have s': "bids s' = level_erased (oprice (mem s x)) x q (bids s)" "asks s' = asks s"
      by auto
    from queues_ordered_level_erased [OF qb 2(2)] qa show ?thesis
      by (simp add: arrival_ordered_def s')
  qed
qed

lemma cancel_front_FillAndKill_arrival_ordered:
  assumes ok: "index_ok s" and a: "arrival_ordered s" and c: "cancel_front_FillAndKill m s = Inr s'"
  shows "arrival_ordered s'"
proof (cases "m \<noteq> [] \<and> snd (hd m) \<noteq> [] \<and> otype (mem s (hd (snd (hd m)))) = FillAndKill")
  case True
  with c have "CancelOrderInternal (oid (mem s (hd (snd (hd m))))) s = Inr s'"
    by (simp add: cancel_front_FillAndKill_def)
  from CancelOrderInternal_arrival_ordered [OF ok a this] show ?thesis .
next
  case False
  with c a show ?thesis by (auto simp: cancel_front_FillAndKill_def)
qed

lemma MatchOrders_loop_arrival_ordered:
  assumes ok: "index_ok s" and lb: "levels_nonempty (bids s)" and la: "levels_nonempty (asks s)"
    and a: "arrival_ordered s" and l: "MatchOrders_loop s trades = Inr (s', trades')"
  shows "arrival_ordered s'"
proof -
  have "\<exists>s' trades'. MatchOrders_loop s trades = Inr (s', trades') \<and> arrival_ordered s' \<and>
           index_ok s' \<and> shrinks s s' \<and> levels_nonempty (bids s') \<and>
           levels_nonempty (asks s') \<and> uncrossed s'"
  proof (rule MatchOrders_loop_inv [OF ok lb la, where K = "\<lambda>x ts. arrival_ordered x"])
    show "arrival_ordered s" by (rule a)
  next
    fix x ts x1 t
    assume "heads_nonempty x" "arrival_ordered x" "match_one x = Inr (x1, t)"
    from match_one_arrival_ordered [OF this(2,1,3)] show "arrival_ordered x1" .
  next
    fix x :: OrderBook
    assume "arrival_ordered x"
    then show "arrival_ordered (erase_empty (fst (hd (bids x))) (fst (hd (asks x))) x)"
      by (rule erase_empty_arrival_ordered)
  qed
  with l show ?thesis by simp
qed

lemma MatchOrders_arrival_ordered:
  assumes ok: "index_ok s" and lb: "levels_nonempty (bids s)" and la: "levels_nonempty (asks s)"
    and a: "arrival_ordered s" and m: "MatchOrders s = Inr (trades, s')"
  shows "arrival_ordered s'"
proof -
  from MatchOrders_loop_props [OF ok lb la] obtain s1 ts where
    l: "MatchOrders_loop s [] = Inr (s1, ts)" and ok1: "index_ok s1" by blast
  from MatchOrders_loop_arrival_ordered [OF ok lb la a l] have a1: "arrival_ordered s1" .
  from cancel_front_FillAndKill_props [OF ok1, of "bids s1"] obtain s2 where
    c2: "cancel_front_FillAndKill (bids s1) s1 = Inr s2" and ok2: "index_ok s2" by blast
  from cancel_front_FillAndKill_arrival_ordered [OF ok1 a1 c2] have a2: "arrival_ordered s2" .
  from cancel_front_FillAndKill_props [OF ok2, of "asks s2"] obtain s3 where
    c3: "cancel_front_FillAndKill (asks s2) s2 = Inr s3" by blast
  from cancel_front_FillAndKill_arrival_ordered [OF ok2 a2 c3] have a3: "arrival_ordered s3" .
  from m l c2 c3 have "s' = s3" by (simp add: MatchOrders_def)
  with a3 show ?thesis by simp
qed

lemma insert_order_arrival_ordered:
  assumes a: "arrival_ordered s" and n: "\<forall>x \<in> set (book_addrs s). x < a"
  shows "arrival_ordered (insert_order a s)"
proof -
  from n have "\<forall>x \<in> set (queue_addrs (bids s)). x < a" "\<forall>x \<in> set (queue_addrs (asks s)). x < a"
    by (simp_all add: book_addrs_def)
  with a show ?thesis
    by (simp add: insert_order_def Let_def arrival_ordered_def queues_ordered_push)
qed


subsection \<open>The priority order of a side\<close>





subsection \<open>The matching loop on the priority lists\<close>











subsection \<open>What the trades of one call filled\<close>

text \<open>The quantity that a list of trades filled of the order with identifier \<open>i\<close>: the
  sum of the quantities of the legs that name it.\<close>

definition filled_quantity :: "OrderId \<Rightarrow> Trade list \<Rightarrow> nat" where
  "filled_quantity i ts =
     sum_list (map (\<lambda>t. (if orderId (bid t) = i then unat (quantity (bid t)) else 0) +
                         (if orderId (ask t) = i then unat (quantity (ask t)) else 0)) ts)"

lemma filled_quantity_Nil [simp]: "filled_quantity i [] = 0"
  by (simp add: filled_quantity_def)








subsection \<open>Arrival order along a sequence of calls\<close>

lemma accepted_start:
  assumes w: "well_formed s" and n: "\<not> orders_contains (orders s) (oid (mem s a))"
    and cm: "convert_market a s = Some s1"
  shows "index_ok (insert_order a s1)"
    and "levels_nonempty (bids (insert_order a s1))"
    and "levels_nonempty (asks (insert_order a s1))"
proof -
  note c = convert_market_Some [OF cm]
  from w have ok: "index_ok s" by (simp add: well_formed_def)
  have na: "a \<notin> set (book_addrs s)" by (rule not_live_not_in_book [OF ok n])
  have w1: "well_formed s1"
  proof (rule wf_mem_cong [OF w c(1,2,3)])
    fix x assume "x \<in> set (book_addrs s)"
    with na have "x \<noteq> a" by blast
    then show "mem s1 x = mem s x" by (rule c(5))
  qed
  then have ok1: "index_ok s1" and lb1: "levels_nonempty (bids s1)"
    and la1: "levels_nonempty (asks s1)" by (simp_all add: well_formed_def)
  have n1: "\<not> orders_contains (orders s1) (oid (mem s1 a))" using n by (simp add: c)
  show "index_ok (insert_order a s1)" by (rule insert_order_index_ok [OF ok1 n1])
  show "levels_nonempty (bids (insert_order a s1))"
    and "levels_nonempty (asks (insert_order a s1))"
    by (rule insert_order_nonempty [OF lb1 la1])+
qed

lemma convert_market_arrival_ordered:
  assumes cm: "convert_market a s = Some s1" and ao: "arrival_ordered s"
    and n: "\<forall>x \<in> set (book_addrs s). x < a"
  shows "arrival_ordered (insert_order a s1)"
proof (rule insert_order_arrival_ordered)
  note c = convert_market_Some [OF cm]
  from ao show "arrival_ordered s1" by (simp add: arrival_ordered_def c)
  from n show "\<forall>x \<in> set (book_addrs s1). x < a" by (simp add: book_addrs_def c)
qed

lemma AddOrder_arrival_ordered:
  assumes w: "well_formed s" and ao: "arrival_ordered s"
    and n: "\<forall>x \<in> set (book_addrs s). x < a" and r: "AddOrder a s = Inr (ts, s')"
  shows "arrival_ordered s'"
proof (cases rule: AddOrder_cases [of s a])
  case duplicate
  with r ao show ?thesis by simp
next
  case no_liquidity
  with r ao show ?thesis by simp
next
  case no_cross
  with r ao show ?thesis by simp
next
  case not_fillable
  with r ao show ?thesis by simp
next
  case (accepted s1)
  note st = accepted_start [OF w accepted(1,2)]
  from accepted(5) r have m: "MatchOrders (insert_order a s1) = Inr (ts, s')" by simp
  from MatchOrders_arrival_ordered [OF st convert_market_arrival_ordered [OF accepted(2) ao n] m]
  show ?thesis .
qed

lemma make_shared_arrival_ordered [simp]:
  "arrival_ordered (make_shared a ord s) = arrival_ordered s"
  by (simp add: make_shared_def arrival_ordered_def)

lemma cancel_all_arrival_ordered:
  assumes "well_formed s" and "arrival_ordered s" and "cancel_all ids s = Inr s'"
  shows "arrival_ordered s'"
  using assms
proof (induction ids arbitrary: s)
  case Nil
  then show ?case by simp
next
  case (Cons i ids)
  from CancelOrderInternal_wf [OF Cons.prems(1), of i] obtain s1 where
    1: "CancelOrderInternal i s = Inr s1" "well_formed s1" by blast
  from Cons.prems(1) have ok: "index_ok s" by (simp add: well_formed_def)
  from CancelOrderInternal_arrival_ordered [OF ok Cons.prems(2) 1(1)]
  have 2: "arrival_ordered s1" .
  from Cons.prems(3) 1(1) have "cancel_all ids s1 = Inr s'" by simp
  from Cons.IH [OF 1(2) 2 this] show ?case .
qed

lemma ModifyOrder_arrival_ordered:
  assumes w: "well_formed s" and g: "all_orders_ok s" and ao: "arrival_ordered s"
    and n: "\<forall>x \<in> set (book_addrs s). x < a" and r: "ModifyOrder md a s = Inr (ts, s')"
  shows "arrival_ordered s'"
proof (cases "map_of (orders s) (m_orderId md)")
  case None
  with r ao show ?thesis by (simp add: ModifyOrder_def)
next
  case (Some e)
  from w have ok: "index_ok s" by (simp add: well_formed_def)
  from CancelOrder_wf [OF w g, of "m_orderId md"] obtain s1 where
    c: "CancelOrder (m_orderId md) s = Inr s1" "well_formed s1"
      "set (book_addrs s1) \<subseteq> set (book_addrs s)" by blast
  from c(1) have "CancelOrderInternal (m_orderId md) s = Inr s1" by (simp add: CancelOrder_def)
  from CancelOrderInternal_arrival_ordered [OF ok ao this] have ao1: "arrival_ordered s1" .
  from c(3) n have n1: "\<forall>x \<in> set (book_addrs s1). x < a" by (rule below_subset)
  then have a1: "a \<notin> set (book_addrs s1)" by auto
  let ?s2 = "make_shared a (ToOrderPointer md (otype (mem s e))) s1"
  have w2: "well_formed ?s2" by (rule make_shared_wf [OF c(2) a1])
  from r Some c(1) have "AddOrder a ?s2 = Inr (ts, s')" by (simp add: ModifyOrder_def Let_def)
  from AddOrder_arrival_ordered [OF w2 _ _ this] ao1 n1 show ?thesis by simp
qed

text \<open>The address that the allocation after a sequence of calls returns.\<close>

fun next_address :: "addr \<Rightarrow> call list \<Rightarrow> addr" where
  "next_address n [] = n"
| "next_address n (CallAdd t i sd p q # cs) = next_address (Suc n) cs"
| "next_address n (CallCancel i # cs) = next_address n cs"
| "next_address n (CallModify md # cs) = next_address (Suc n) cs"
| "next_address n (CallPrune # cs) = next_address n cs"

text \<open>Every book that a sequence of calls reaches is well-formed and in arrival order,
  and its orders live below the next address: the hypotheses under which the priority
  of matching is stated below hold at every call of \<open>AddOrder\<close>.\<close>

lemma run_arrival_ordered:
  assumes "well_formed s" and "\<forall>x \<in> set (book_addrs s). x < n" and "all_orders_ok s"
    and "arrival_ordered s"
  shows "\<exists>s'. run n cs s = Inr s' \<and> well_formed s' \<and> all_orders_ok s' \<and> arrival_ordered s' \<and>
           (\<forall>x \<in> set (book_addrs s'). x < next_address n cs)"
  using assms
proof (induction cs arbitrary: n s)
  case Nil
  then show ?case by simp
next
  case (Cons c cs)
  from Cons.prems(2) have fresh: "n \<notin> set (book_addrs s)" by auto
  show ?case
  proof (cases c)
    case (CallAdd t i sd p q)
    let ?s0 = "make_shared n (Order_new t i sd p q) s"
    from AddOrder_new_wf [OF Cons.prems(1) fresh Cons.prems(3), of t i sd p q] obtain ts s1 where
      r: "AddOrder n ?s0 = Inr (ts, s1)" "well_formed s1"
        "set (book_addrs s1) \<subseteq> insert n (set (book_addrs s))" "all_orders_ok s1" by blast
    from r(3) Cons.prems(2) have b: "\<forall>x \<in> set (book_addrs s1). x < Suc n"
      by (rule below_Suc)
    have "arrival_ordered s1"
      using AddOrder_arrival_ordered [OF make_shared_wf [OF Cons.prems(1) fresh] _ _ r(1)]
        Cons.prems(2,4) by simp
    from Cons.IH [OF r(2) b r(4) this] r(1) CallAdd show ?thesis by simp
  next
    case (CallCancel i)
    from CancelOrder_wf [OF Cons.prems(1,3), of i] obtain s1 where
      r: "CancelOrder i s = Inr s1" "well_formed s1" "set (book_addrs s1) \<subseteq> set (book_addrs s)"
        "all_orders_ok s1" by blast
    from r(3) Cons.prems(2) have b: "\<forall>x \<in> set (book_addrs s1). x < n"
      by (rule below_subset)
    from Cons.prems(1) have ok: "index_ok s" by (simp add: well_formed_def)
    from r(1) have "CancelOrderInternal i s = Inr s1" by (simp add: CancelOrder_def)
    from CancelOrderInternal_arrival_ordered [OF ok Cons.prems(4) this]
    have "arrival_ordered s1" .
    from Cons.IH [OF r(2) b r(4) this] r(1) CallCancel show ?thesis by simp
  next
    case (CallModify md)
    from ModifyOrder_wf [OF Cons.prems(1) fresh Cons.prems(3), of md] obtain ts s1 where
      r: "ModifyOrder md n s = Inr (ts, s1)" "well_formed s1"
        "set (book_addrs s1) \<subseteq> insert n (set (book_addrs s))" "all_orders_ok s1" by blast
    from r(3) Cons.prems(2) have b: "\<forall>x \<in> set (book_addrs s1). x < Suc n"
      by (rule below_Suc)
    from ModifyOrder_arrival_ordered [OF Cons.prems(1,3,4,2) r(1)]
    have "arrival_ordered s1" .
    from Cons.IH [OF r(2) b r(4) this] r(1) CallModify show ?thesis by simp
  next
    case CallPrune
    from PruneGoodForDayOrders_wf [OF Cons.prems(1,3)] obtain s1 where
      r: "PruneGoodForDayOrders s = Inr s1" "well_formed s1" "set (book_addrs s1) \<subseteq> set (book_addrs s)"
        "all_orders_ok s1" by blast
    from r(3) Cons.prems(2) have b: "\<forall>x \<in> set (book_addrs s1). x < n"
      by (rule below_subset)
    from r(1) have "cancel_all (map fst (filter (\<lambda>kv. otype (mem s (snd kv)) = GoodForDay)
        (orders s))) s = Inr s1"
      by (simp add: PruneGoodForDayOrders_def)
    from cancel_all_arrival_ordered [OF Cons.prems(1,4) this] have "arrival_ordered s1" .
    from Cons.IH [OF r(2) b r(4) this] r(1) CallPrune show ?thesis by simp
  qed
qed

lemma run_new_arrival_ordered:
  "\<exists>s'. run 0 cs OrderBook_new = Inr s' \<and> well_formed s' \<and> all_orders_ok s' \<and>
     arrival_ordered s' \<and> (\<forall>x \<in> set (book_addrs s'). x < next_address 0 cs)"
  by (rule run_arrival_ordered [OF wf_OrderBook_new])
     (simp_all add: OrderBook_new_def book_addrs_def all_orders_ok_def empty_order_def
        Order_new_def arrival_ordered_def)


subsection \<open>Matching follows price-time priority\<close>






text \<open>Two asks queue at 99, of 4 (id 1) and then of 5 (id 2), and one of 6 rests at 101
  (id 3); the order at address 4 is a buy of 12 at 101 (id 4).\<close>

definition book_ask_queue :: OrderBook where
  "book_ask_queue =
     \<lparr>mem = (\<lambda>a. empty_order)(1 := Order_new GoodTillCancel 1 Sell 99 4,
                                2 := Order_new GoodTillCancel 2 Sell 99 5,
                                3 := Order_new GoodTillCancel 3 Sell 101 6,
                                4 := Order_new GoodTillCancel 4 Buy 101 12),
      bids = [], asks = [(99, [1, 2]), (101, [3])], orders = [(1, 1), (2, 2), (3, 3)],
      ldata = (\<lambda>p. None)(99 \<mapsto> \<lparr>ld_count = 2, ld_quantity = 9\<rparr>,
                           101 \<mapsto> \<lparr>ld_count = 1, ld_quantity = 6\<rparr>)\<rparr>"

lemma book_ask_queue_reached:
  "run 1 [CallAdd GoodTillCancel 1 Sell 99 4, CallAdd GoodTillCancel 2 Sell 99 5,
          CallAdd GoodTillCancel 3 Sell 101 6] OrderBook_new =
     Inr (book_ask_queue\<lparr>mem := (mem book_ask_queue)(4 := empty_order)\<rparr>)"
  by (simp add: eval_defs book_ask_queue_def fun_eq_iff)






section \<open>The mutex and concurrent callers\<close>

text \<open>
  \<open>std::scoped_lock lock(mutex_)\<close> holds the one mutex of the book from its declaration
  to the end of the enclosing block, so the code of that block runs as one critical
  section, and two critical sections never overlap. \<open>AddOrder\<close>, \<open>CancelOrder\<close>,
  \<open>GetBidLevels\<close>, \<open>GetAskLevels\<close> and \<open>Size\<close> declare the lock as their first statement.
  The sweeper holds the mutex from its wake to the end of the sweep. \<open>ModifyOrder\<close>
  declares the lock inside a block of its own that holds the lookup; the block ends, and
  the calls of \<open>CancelOrder\<close> and of \<open>AddOrder\<close> that follow take the mutex again.

  An activity is a call in progress on some thread: what is left of it to do. \<open>critical_section\<close>
  runs the next critical section of an activity on the book and gives the book and the
  activity after it. The order object of an \<open>AddOrder\<close> is built by the caller and no other
  thread sees it before the call publishes it; it is written to the heap at the start
  of the section that publishes it.
\<close>

datatype outcome =
    Trades "Trade list"
  | Returned
  | Count nat
  | LevelList "(Price \<times> 64 word) list"
  | Thrown error

datatype activity =
    DoAdd addr OrderType OrderId Side Price Quantity
  | DoCancel OrderId
  | DoModify OrderModify addr
  | ModifyCancel OrderModify addr OrderType
  | ModifyAdd OrderModify addr OrderType
  | DoBids nat "64 word"
  | DoAsks nat "64 word"
  | DoSize
  | DoPrune
  | Done outcome




text \<open>The address of the order object that an activity has still to publish.\<close>

fun pending :: "activity \<Rightarrow> addr option" where
  "pending (DoAdd a t i sd p q) = Some a"
| "pending (DoModify md a) = Some a"
| "pending (ModifyCancel md a typeToKeep) = Some a"
| "pending (ModifyAdd md a typeToKeep) = Some a"
| "pending (DoCancel i) = None"
| "pending (DoBids avail depth) = None"
| "pending (DoAsks avail depth) = None"
| "pending DoSize = None"
| "pending DoPrune = None"
| "pending (Done r) = None"

text \<open>The allocator gives every order object an address of its own: the objects still
  to be published are not in the book, and no two activities hold the same one.\<close>

definition fresh :: "activity list \<Rightarrow> OrderBook \<Rightarrow> bool" where
  "fresh ts s =
     (\<forall>i < length ts. \<forall>a. pending (ts ! i) = Some a \<longrightarrow>
        a \<notin> set (book_addrs s) \<and> (\<forall>j < length ts. j \<noteq> i \<longrightarrow> pending (ts ! j) \<noteq> Some a))"














end
